theory Spec2Isabelle
  imports Main "HOL-Library.Log_Nat" "HOL-Library.Sublist" "HOL-Library.Multiset"
begin

section \<open>Strings and characters\<close>

text \<open>
  A Python \<^verbatim>\<open>str\<close> is a sequence of code points.  The model uses \<^typ>\<open>string\<close>, whose
  characters carry the code points 0 to 255 (read with \<^const>\<open>of_char\<close>); titles with code
  points above 255 are outside the model.  On this range the three character functions the
  program relies on are finite tables:
  \<^item> \<^verbatim>\<open>str.lower()\<close> moves \<^verbatim>\<open>A-Z\<close> and the code points 192 to 222 except 215 up by 32;
  \<^item> the class \<^verbatim>\<open>\s\<close> of \<^verbatim>\<open>re\<close> (and \<^verbatim>\<open>str.isspace\<close>, used by \<^verbatim>\<open>strip()\<close>) holds
    9 to 13, 28 to 32, 133 and 160;
  \<^item> the class \<^verbatim>\<open>\w\<close> of \<^verbatim>\<open>re\<close> holds the characters with \<^verbatim>\<open>str.isalnum()\<close> and the
    underscore.
\<close>

definition is_space :: "char \<Rightarrow> bool" where
  "is_space c =
     (let n = (of_char c :: nat)
      in (9 \<le> n \<and> n \<le> 13) \<or> (28 \<le> n \<and> n \<le> 32) \<or> n = 133 \<or> n = 160)"

definition is_alnum :: "char \<Rightarrow> bool" where
  "is_alnum c =
     (let n = (of_char c :: nat)
      in (48 \<le> n \<and> n \<le> 57) \<or> (65 \<le> n \<and> n \<le> 90) \<or> (97 \<le> n \<and> n \<le> 122)
         \<or> n = 170 \<or> n = 178 \<or> n = 179 \<or> n = 181 \<or> n = 185 \<or> n = 186
         \<or> (188 \<le> n \<and> n \<le> 190) \<or> (192 \<le> n \<and> n \<le> 214)
         \<or> (216 \<le> n \<and> n \<le> 246) \<or> (248 \<le> n \<and> n \<le> 255))"

definition is_word :: "char \<Rightarrow> bool" where
  "is_word c = (is_alnum c \<or> c = CHR ''_'')"

definition lower_char :: "char \<Rightarrow> char" where
  "lower_char c =
     (let n = (of_char c :: nat)
      in if (65 \<le> n \<and> n \<le> 90) \<or> (192 \<le> n \<and> n \<le> 222 \<and> n \<noteq> 215)
         then char_of (n + 32) else c)"

definition lower :: "string \<Rightarrow> string" where
  "lower s = map lower_char s"

text \<open>\<^verbatim>\<open>sub in s\<close> on strings: \<open>sub\<close> occurs in \<open>s\<close> as a contiguous block.\<close>

fun contains :: "string \<Rightarrow> string \<Rightarrow> bool" where
  "contains sub [] = (sub = [])"
| "contains sub (c # cs) = (prefix sub (c # cs) \<or> contains sub cs)"

text \<open>\<^verbatim>\<open>s.strip()\<close>: whitespace is dropped from both ends.\<close>

definition lstrip :: "string \<Rightarrow> string" where
  "lstrip s = dropWhile is_space s"

definition strip :: "string \<Rightarrow> string" where
  "strip s = rev (dropWhile is_space (rev (dropWhile is_space s)))"

section \<open>The title normalizer\<close>

text \<open>
  \<^verbatim>\<open>re.sub(r'^(the|a|an)\s+', '', title)\<close>.  Without \<^verbatim>\<open>re.MULTILINE\<close> the anchor only
  matches at position 0, so at most one match is replaced.  The greedy \<^verbatim>\<open>\s+\<close> takes the
  whole run of whitespace after the article; the three alternatives exclude each other
  once a whitespace character has to follow.
\<close>

definition article_at :: "string \<Rightarrow> string \<Rightarrow> bool" where
  "article_at a s = (prefix a s \<and> (case drop (length a) s of [] \<Rightarrow> False | c # _ \<Rightarrow> is_space c))"

definition strip_article :: "string \<Rightarrow> string" where
  "strip_article s =
     (if article_at ''the'' s then lstrip (drop 3 s)
      else if article_at ''a'' s then lstrip (drop 1 s)
      else if article_at ''an'' s then lstrip (drop 2 s)
      else s)"

text \<open>
  \<^verbatim>\<open>re.sub(r'\s+(fable|story|tale)$', '', title)\<close>.  The leftmost match is replaced.  A
  match starts at a whitespace character; the genre word starts with a letter, so
  \<^verbatim>\<open>\s+\<close> has to take the whole whitespace run, and what follows the run must be the
  genre word up to the position where \<^verbatim>\<open>$\<close> holds: the end of the string, or just before
  a newline that is the last character.  In the second case the newline is not part of
  the match and stays.  After the match nothing is left that could match again.
\<close>

definition genre_words :: "string list" where
  "genre_words = [''fable'', ''story'', ''tale'']"

definition newline :: char where
  "newline = char_of (10 :: nat)"

fun strip_genre :: "string \<Rightarrow> string" where
  "strip_genre [] = []"
| "strip_genre (c # cs) =
     (if is_space c \<and> lstrip cs \<in> set genre_words then []
      else if is_space c \<and> lstrip cs \<in> set (map (\<lambda>g. g @ [newline]) genre_words) then [newline]
      else c # strip_genre cs)"

text \<open>\<^verbatim>\<open>re.sub(r'[^\w\s]', '', title)\<close>: every character outside both classes is deleted.\<close>

definition remove_punct :: "string \<Rightarrow> string" where
  "remove_punct s = filter (\<lambda>c. is_word c \<or> is_space c) s"

text \<open>\<^verbatim>\<open>re.sub(r'\s+', ' ', title)\<close>: every maximal run of whitespace becomes one space.\<close>

function collapse_ws :: "string \<Rightarrow> string" where
  "collapse_ws [] = []"
| "collapse_ws (c # cs) =
     (if is_space c then CHR '' '' # collapse_ws (dropWhile is_space cs)
      else c # collapse_ws cs)"
  by pat_completeness auto
termination
  by (relation "measure length") (auto simp: length_dropWhile_le less_Suc_eq_le)

definition normalize_title :: "string \<Rightarrow> string" where
  "normalize_title title =
     strip (collapse_ws (remove_punct (strip_genre (strip_article (lower title)))))"

section \<open>Floating-point scores\<close>

text \<open>
  Python's \<^verbatim>\<open>float\<close> is IEEE-754 binary64.  A finite double is a rational number, and
  every operation returns the exact result rounded to 53 significant bits, ties to even.
  \<open>fl\<close> is that rounding (the scores stay between 1/4 and 2, far from overflow and
  from the subnormal range, so the exponent is left unbounded).  A decimal literal such
  as \<^verbatim>\<open>0.1\<close> denotes \<open>fl (1 / 10)\<close>.
\<close>

definition pow2 :: "int \<Rightarrow> rat" where
  "pow2 e = (if 0 \<le> e then 2 ^ nat e else 1 / 2 ^ nat (- e))"

definition round_half_even :: "rat \<Rightarrow> int" where
  "round_half_even x =
     (let f = \<lfloor>x\<rfloor>; d = x - of_int f
      in if d < 1 / 2 then f else if 1 / 2 < d then f + 1
         else if even f then f else f + 1)"

text \<open>The exponent \<open>e\<close> with \<open>2 ^ e \<le> \<bar>x\<bar> < 2 ^ (e + 1)\<close>, for \<open>x \<noteq> 0\<close>.\<close>

definition binade :: "rat \<Rightarrow> int" where
  "binade x =
     (let (p, q) = quotient_of \<bar>x\<bar>; d = bitlen p - bitlen q
      in if pow2 d \<le> \<bar>x\<bar> then d else d - 1)"

definition fl :: "rat \<Rightarrow> rat" where
  "fl x = (if x = 0 then 0
           else let u = pow2 (binade x - 52) in of_int (round_half_even (x / u)) * u)"

definition fadd :: "rat \<Rightarrow> rat \<Rightarrow> rat" where
  "fadd a b = fl (a + b)"

definition fsub :: "rat \<Rightarrow> rat \<Rightarrow> rat" where
  "fsub a b = fl (a - b)"

definition fmul :: "rat \<Rightarrow> rat \<Rightarrow> rat" where
  "fmul a b = fl (a * b)"

section \<open>Records and errors\<close>

text \<open>
  A fable is a dictionary loaded from JSON.  A key may be absent, and reading an absent
  key raises \<^verbatim>\<open>KeyError\<close>; so every field is optional and every read goes through
  \<open>lookup\<close>.  Two dictionaries are equal when all their entries are.
\<close>

record fable =
  title :: "string option"
  original_title :: "string option"
  url :: "string option"
  content :: "string option"
  word_count :: "int option"

datatype py_error = KeyError string | ValueError | IndexError | BatchSizeExceeded

definition lookup :: "string \<Rightarrow> 'a option \<Rightarrow> py_error + 'a" where
  "lookup k v = (case v of None \<Rightarrow> Inl (KeyError k) | Some x \<Rightarrow> Inr x)"

section \<open>The version scorer\<close>

definition word_score :: "int \<Rightarrow> rat" where
  "word_score wc =
     (if 100 \<le> wc \<and> wc \<le> 500 then fl 1
      else if 50 \<le> wc \<and> wc < 100 then fl (8 / 10)
      else if 500 < wc \<and> wc \<le> 1000 then fl (9 / 10)
      else fl (5 / 10))"

definition moral_markers :: "string list" where
  "moral_markers = [''moral:'', ''lesson:'', ''application:'']"

definition content_score :: "string \<Rightarrow> rat" where
  "content_score c =
     (let s0 = fl 1;
          s1 = (if contains ''AesopFables.com'' c then fsub s0 (fl (1 / 10)) else s0);
          s2 = (if contains ''Process took:'' c then fsub s1 (fl (2 / 10)) else s1);
          s3 = (if contains ''Copyright'' c then fsub s2 (fl (1 / 10)) else s2)
      in if list_ex (\<lambda>w. contains w (lower c)) moral_markers
         then fadd s3 (fl (2 / 10)) else s3)"

definition total_score :: "int \<Rightarrow> string \<Rightarrow> rat" where
  "total_score wc c = fmul (word_score wc) (content_score c)"

text \<open>The loop that fills \<^verbatim>\<open>scored_versions\<close>; the first missing key aborts it.\<close>

fun score_versions :: "fable list \<Rightarrow> py_error + (rat \<times> fable) list" where
  "score_versions [] = Inr []"
| "score_versions (f # fs) =
     (case lookup ''word_count'' (word_count f) of
        Inl e \<Rightarrow> Inl e
      | Inr wc \<Rightarrow>
          (case lookup ''content'' (content f) of
             Inl e \<Rightarrow> Inl e
           | Inr c \<Rightarrow>
               (case score_versions fs of
                  Inl e \<Rightarrow> Inl e
                | Inr rest \<Rightarrow> Inr ((total_score wc c, f) # rest))))"

text \<open>
  \<^verbatim>\<open>max(xs, key=...)\<close> keeps the item it holds unless a later key is strictly greater,
  and raises \<^verbatim>\<open>ValueError\<close> on an empty list.
\<close>

fun max_from :: "rat \<times> 'a \<Rightarrow> (rat \<times> 'a) list \<Rightarrow> rat \<times> 'a" where
  "max_from best [] = best"
| "max_from best (x # xs) = max_from (if fst best < fst x then x else best) xs"

definition py_max :: "(rat \<times> 'a) list \<Rightarrow> py_error + rat \<times> 'a" where
  "py_max xs = (case xs of [] \<Rightarrow> Inl ValueError | x # rest \<Rightarrow> Inr (max_from x rest))"

definition choose_best_version :: "fable list \<Rightarrow> py_error + fable" where
  "choose_best_version duplicates =
     (case score_versions duplicates of
        Inl e \<Rightarrow> Inl e
      | Inr scored \<Rightarrow> (case py_max scored of Inl e \<Rightarrow> Inl e | Inr p \<Rightarrow> Inr (snd p)))"

section \<open>Grouping and deduplication\<close>

text \<open>
  \<^verbatim>\<open>title_groups\<close> is a \<^verbatim>\<open>defaultdict(list)\<close>; a Python dictionary iterates in the
  order in which its keys were first inserted, so it is an association list in that order.
\<close>

type_synonym groups = "(string \<times> fable list) list"

fun add_to_group :: "string \<Rightarrow> fable \<Rightarrow> groups \<Rightarrow> groups" where
  "add_to_group k f [] = [(k, [f])]"
| "add_to_group k f ((k', g) # gs) =
     (if k = k' then (k', g @ [f]) # gs else (k', g) # add_to_group k f gs)"

fun group_fables :: "fable list \<Rightarrow> groups \<Rightarrow> py_error + groups" where
  "group_fables [] tg = Inr tg"
| "group_fables (f # fs) tg =
     (case lookup ''title'' (title f) of
        Inl e \<Rightarrow> Inl e
      | Inr t \<Rightarrow> group_fables fs (add_to_group (normalize_title t) f tg))"

text \<open>\<^verbatim>\<open>s.split(sep)\<close> for a non-empty separator: occurrences are found left to right.\<close>

function py_split_from :: "string \<Rightarrow> string \<Rightarrow> string \<Rightarrow> string list" where
  "py_split_from sep acc [] = [acc]"
| "py_split_from sep acc (c # cs) =
     (if sep \<noteq> [] \<and> prefix sep (c # cs)
      then acc # py_split_from sep [] (drop (length sep) (c # cs))
      else py_split_from sep (acc @ [c]) cs)"
  by pat_completeness auto
termination
  by (relation "measure (\<lambda>(sep, acc, s). length s)") auto

definition py_split :: "string \<Rightarrow> string \<Rightarrow> string list" where
  "py_split sep s = py_split_from sep [] s"

definition url_suffix :: "string \<Rightarrow> string" where
  "url_suffix u = (if contains ''?srch&'' u then last (py_split ''?srch&'' u) else u)"

text \<open>The inner loop over a group that fills \<^verbatim>\<open>removed_stories\<close>.\<close>

fun track_removed :: "fable \<Rightarrow> fable list \<Rightarrow> py_error + string list" where
  "track_removed best [] = Inr []"
| "track_removed best (f # fs) =
     (if f \<noteq> best
      then (case lookup ''url'' (url f) of
              Inl e \<Rightarrow> Inl e
            | Inr u \<Rightarrow>
                (case track_removed best fs of
                   Inl e \<Rightarrow> Inl e
                 | Inr r \<Rightarrow> Inr (url_suffix u # r)))
      else track_removed best fs)"

text \<open>
  The progress lines the loop prints for a group of several versions.  The text goes to
  the terminal and is not modelled, but each line reads \<^verbatim>\<open>fable['title']\<close> and then
  \<^verbatim>\<open>fable['word_count']\<close>, and a missing key raises there.
\<close>

definition print_line :: "fable \<Rightarrow> py_error + unit" where
  "print_line f =
     (case lookup ''title'' (title f) of
        Inl e \<Rightarrow> Inl e
      | Inr _ \<Rightarrow> (case lookup ''word_count'' (word_count f) of Inl e \<Rightarrow> Inl e | Inr _ \<Rightarrow> Inr ()))"

fun print_versions :: "fable list \<Rightarrow> py_error + unit" where
  "print_versions [] = Inr ()"
| "print_versions (f # fs) =
     (case print_line f of Inl e \<Rightarrow> Inl e | Inr _ \<Rightarrow> print_versions fs)"

text \<open>
  The loop over \<^verbatim>\<open>title_groups.items()\<close>.  It returns \<^verbatim>\<open>deduplicated_fables\<close> and
  \<^verbatim>\<open>removed_stories\<close>, the two lists the program writes to its output files.
\<close>

fun select_groups :: "groups \<Rightarrow> py_error + fable list \<times> string list" where
  "select_groups [] = Inr ([], [])"
| "select_groups ((k, g) # gs) =
     (if 1 < length g
      then (case print_versions g of
              Inl e \<Rightarrow> Inl e
            | Inr _ \<Rightarrow>
                (case choose_best_version g of
                   Inl e \<Rightarrow> Inl e
                 | Inr best \<Rightarrow>
                     (case print_line best of
                        Inl e \<Rightarrow> Inl e
                      | Inr _ \<Rightarrow>
                          (case track_removed best g of
                             Inl e \<Rightarrow> Inl e
                           | Inr rm \<Rightarrow>
                               (case select_groups gs of
                                  Inl e \<Rightarrow> Inl e
                                | Inr (out, removed) \<Rightarrow> Inr (best # out, rm @ removed))))))
      else (case g of
              [] \<Rightarrow> Inl IndexError
            | f # _ \<Rightarrow>
                (case select_groups gs of
                   Inl e \<Rightarrow> Inl e
                 | Inr (out, removed) \<Rightarrow> Inr (f # out, removed))))"

text \<open>
  The counter \<^verbatim>\<open>duplicates_found\<close> of the same loop: every group of several versions
  adds \<^verbatim>\<open>len(group) - 1\<close>; the program reports it as the number of removed duplicates.
\<close>

fun duplicates_found :: "groups \<Rightarrow> nat" where
  "duplicates_found [] = 0"
| "duplicates_found ((k, g) # gs) =
     (if 1 < length g then length g - 1 else 0) + duplicates_found gs"

definition deduplicate_fables :: "fable list \<Rightarrow> py_error + fable list \<times> string list" where
  "deduplicate_fables fables =
     (case group_fables fables [] of Inl e \<Rightarrow> Inl e | Inr tg \<Rightarrow> select_groups tg)"

section \<open>The embedding pass\<close>





















section \<open>Notions used in the statements\<close>

text \<open>A record with all the fields the deduplication pass reads.\<close>

definition well_formed :: "fable \<Rightarrow> bool" where
  "well_formed f =
     (title f \<noteq> None \<and> url f \<noteq> None \<and> content f \<noteq> None \<and> word_count f \<noteq> None)"

text \<open>The score the scorer gives a record that has a word count and a content.\<close>

definition fable_score :: "fable \<Rightarrow> rat option" where
  "fable_score f =
     (case (word_count f, content f) of
        (Some wc, Some c) \<Rightarrow> Some (total_score wc c)
      | _ \<Rightarrow> None)"

text \<open>A content in which the scorer finds none of its markers.\<close>

definition no_markers :: "string \<Rightarrow> bool" where
  "no_markers c =
     (\<not> contains ''AesopFables.com'' c \<and> \<not> contains ''Process took:'' c
      \<and> \<not> contains ''Copyright'' c \<and> \<not> list_ex (\<lambda>w. contains w (lower c)) moral_markers)"

text \<open>The distinct elements of a list, in the order of their first occurrence.\<close>

fun first_occurrences :: "'a list \<Rightarrow> 'a list" where
  "first_occurrences [] = []"
| "first_occurrences (x # xs) = x # filter (\<lambda>y. y \<noteq> x) (first_occurrences xs)"

text \<open>The position of the first occurrence of an element (the length, if there is none).\<close>

definition first_index :: "'a \<Rightarrow> 'a list \<Rightarrow> nat" where
  "first_index x xs = length (takeWhile (\<lambda>y. y \<noteq> x) xs)"

text \<open>The group stored under a key; empty when the key is absent.\<close>

definition group_of :: "groups \<Rightarrow> string \<Rightarrow> fable list" where
  "group_of tg k = (case map_of tg k of None \<Rightarrow> [] | Some g \<Rightarrow> g)"

text \<open>The key of a record that has a title.\<close>

definition key_of :: "fable \<Rightarrow> string" where
  "key_of f = normalize_title (the (title f))"






text \<open>The article tokens of the first pattern.\<close>

definition article_words :: "string list" where
  "article_words = [''the'', ''a'', ''an'']"

text \<open>Sample records.\<close>

definition sample :: "string \<Rightarrow> string \<Rightarrow> string \<Rightarrow> int \<Rightarrow> fable" where
  "sample t u c n =
     \<lparr>title = Some t, original_title = Some t, url = Some u, content = Some c,
      word_count = Some n\<rparr>"

definition sample_corpus :: "fable list" where
  "sample_corpus =
     [sample ''The Fox'' ''https://aesopfables.com/cgi/aesop1.cgi?srch&fabl/TheFox'' ''A fox.'' 40,
      sample ''Crow'' ''u2'' ''A crow.'' 250,
      sample ''fox!'' ''u3'' ''The fox saw grapes.'' 150,
      sample ''A Fox Tale'' ''u4'' ''The fox saw grapes.'' 150]"

text \<open>Records with a missing field.\<close>

definition untitled :: "string \<Rightarrow> string \<Rightarrow> int \<Rightarrow> fable" where
  "untitled u c n =
     \<lparr>title = None, original_title = None, url = Some u, content = Some c, word_count = Some n\<rparr>"

definition contentless :: "string \<Rightarrow> string \<Rightarrow> int \<Rightarrow> fable" where
  "contentless t u n =
     \<lparr>title = Some t, original_title = Some t, url = Some u, content = None, word_count = Some n\<rparr>"

section \<open>Rounding of the score constants\<close>

lemma fl_one: "fl 1 = 1"
  by code_simp

lemma fl_half: "fl (1 / 2) = 1 / 2"
  by code_simp

lemma fl_idem: "fl (fl (9 / 10)) = fl (9 / 10)" "fl (fl (4 / 5)) = fl (4 / 5)"
  by code_simp+

section \<open>The scorer\<close>

lemma content_score_no_markers: "no_markers c \<Longrightarrow> content_score c = 1"
  by (simp add: no_markers_def content_score_def fl_one)

lemma word_score_table:
  "word_score wc =
     (if 100 \<le> wc \<and> wc \<le> 500 then 1
      else if 500 < wc \<and> wc \<le> 1000 then fl (9 / 10)
      else if 50 \<le> wc \<and> wc < 100 then fl (8 / 10)
      else 1 / 2)"
  by (simp add: word_score_def fl_one fl_half)

lemma total_no_markers: "no_markers c \<Longrightarrow> total_score wc c = word_score wc"
  by (simp add: total_score_def fmul_def content_score_no_markers word_score_table
      fl_idem fl_half fl_one)

text \<open>
  Claim C2.  The word score is 1.0 for a word count in [100, 500], 0.9 in (500, 1000],
  0.8 in [50, 100) and 0.5 otherwise, and the total score is the (floating-point) product of
  word score and content score.  For three candidates with word counts 40, 250 and 1500
  whose contents hold no marker, the scores are 0.5, 1.0 and 0.5 and the scorer returns
  the candidate with 250 words.
\<close>

theorem scorer_table_and_example:
  assumes "word_count a = Some 40" and "word_count b = Some 250" and "word_count c = Some 1500"
    and "content a = Some ca" and "content b = Some cb" and "content c = Some cc"
    and "no_markers ca" and "no_markers cb" and "no_markers cc"
  shows "word_score wc =
           (if 100 \<le> wc \<and> wc \<le> 500 then 1
            else if 500 < wc \<and> wc \<le> 1000 then fl (9 / 10)
            else if 50 \<le> wc \<and> wc < 100 then fl (8 / 10)
            else 1 / 2)
         \<and> total_score wc x = fl (word_score wc * content_score x)
         \<and> fable_score a = Some (1 / 2) \<and> fable_score b = Some 1 \<and> fable_score c = Some (1 / 2)
         \<and> choose_best_version [a, b, c] = Inr b"
proof -
  have scores: "total_score 40 ca = 1 / 2" "total_score 250 cb = 1" "total_score 1500 cc = 1 / 2"
    using assms(7-9) by (simp_all add: total_no_markers word_score_table)
  have "choose_best_version [a, b, c] = Inr b"
    using assms(1-6) scores by (simp add: choose_best_version_def lookup_def py_max_def)
  moreover have "fable_score a = Some (1 / 2) \<and> fable_score b = Some 1 \<and> fable_score c = Some (1 / 2)"
    using assms(1-6) scores by (simp add: fable_score_def)
  moreover have "total_score wc x = fl (word_score wc * content_score x)"
    by (simp add: total_score_def fmul_def)
  ultimately show ?thesis
    using word_score_table [of wc] by simp
qed

theorem scorer_table_and_example_witness:
  "fable_score (sample ''The Fox'' ''u1'' ''A fox saw grapes.'' 40) = Some (1 / 2)
   \<and> fable_score (sample ''Fox'' ''u2'' ''A hungry fox saw some grapes.'' 250) = Some 1
   \<and> choose_best_version
       [sample ''The Fox'' ''u1'' ''A fox saw grapes.'' 40,
        sample ''Fox'' ''u2'' ''A hungry fox saw some grapes.'' 250,
        sample ''A Fox'' ''u3'' ''Once a fox saw grapes.'' 1500]
     = Inr (sample ''Fox'' ''u2'' ''A hungry fox saw some grapes.'' 250)"
proof -
  have m: "no_markers ''A fox saw grapes.''" "no_markers ''A hungry fox saw some grapes.''"
    "no_markers ''Once a fox saw grapes.''"
    by code_simp+
  show ?thesis
    using scorer_table_and_example
      [of "sample ''The Fox'' ''u1'' ''A fox saw grapes.'' 40"
          "sample ''Fox'' ''u2'' ''A hungry fox saw some grapes.'' 250"
          "sample ''A Fox'' ''u3'' ''Once a fox saw grapes.'' 1500", OF _ _ _ _ _ _ m]
    by (simp add: sample_def)
qed

section \<open>Selection of the first maximal candidate\<close>

lemma max_from_first:
  "\<exists>pre post. b # xs = pre @ max_from b xs # post
     \<and> (\<forall>y \<in> set pre. fst y < fst (max_from b xs))
     \<and> (\<forall>y \<in> set post. fst y \<le> fst (max_from b xs))"
proof (induction xs arbitrary: b)
  case Nil
  have "[b] = [] @ b # []" by simp
  then show ?case by force
next
  case (Cons x xs)
  show ?case
  proof (cases "fst b < fst x")
    case True
    then have m: "max_from b (x # xs) = max_from x xs" by simp
    from Cons.IH [of x] obtain pre post where d: "x # xs = pre @ max_from x xs # post"
      and lt: "\<forall>y \<in> set pre. fst y < fst (max_from x xs)"
      and le: "\<forall>y \<in> set post. fst y \<le> fst (max_from x xs)"
      by blast
    have "x \<in> set (pre @ max_from x xs # post)" using d by (metis list.set_intros(1))
    then have "fst x \<le> fst (max_from x xs)" using lt le by auto
    with True have "fst b < fst (max_from x xs)" by simp
    with lt have lt': "\<forall>y \<in> set (b # pre). fst y < fst (max_from x xs)" by simp
    have "b # x # xs = (b # pre) @ max_from x xs # post" using d by simp
    with lt' le show ?thesis unfolding m by blast
  next
    case False
    then have m: "max_from b (x # xs) = max_from b xs" by simp
    from Cons.IH [of b] obtain pre post where d: "b # xs = pre @ max_from b xs # post"
      and lt: "\<forall>y \<in> set pre. fst y < fst (max_from b xs)"
      and le: "\<forall>y \<in> set post. fst y \<le> fst (max_from b xs)"
      by blast
    show ?thesis
    proof (cases pre)
      case Nil
      with d have e: "max_from b xs = b" "post = xs" by auto
      have d': "b # x # xs = [] @ max_from b xs # (x # xs)" using e by simp
      have "\<forall>y \<in> set (x # xs). fst y \<le> fst (max_from b xs)" using le e False by auto
      with d' show ?thesis unfolding m by (metis empty_iff empty_set)
    next
      case (Cons p ps)
      with d have p: "p = b" and xs: "xs = ps @ max_from b xs # post" by auto
      from lt Cons p have "fst b < fst (max_from b xs)" by simp
      with False have "fst x < fst (max_from b xs)" by simp
      with lt Cons p have lt': "\<forall>y \<in> set (b # x # ps). fst y < fst (max_from b xs)" by simp
      have "b # x # xs = (b # x # ps) @ max_from b xs # post" using xs by simp
      with lt' le show ?thesis unfolding m by blast
    qed
  qed
qed

lemma score_versions_total:
  "\<forall>f \<in> set g. word_count f \<noteq> None \<and> content f \<noteq> None \<Longrightarrow>
   score_versions g = Inr (map (\<lambda>f. (the (fable_score f), f)) g)"
  by (induction g) (auto simp: lookup_def fable_score_def)

lemma score_versions_Inr:
  "score_versions g = Inr sv \<Longrightarrow> \<forall>f \<in> set g. word_count f \<noteq> None \<and> content f \<noteq> None"
  by (induction g arbitrary: sv) (auto simp: lookup_def split: option.splits sum.splits)

lemma choose_best_first_max:
  assumes "g \<noteq> []" and "\<forall>f \<in> set g. word_count f \<noteq> None \<and> content f \<noteq> None"
  shows "\<exists>pre b post. choose_best_version g = Inr b \<and> g = pre @ b # post
     \<and> (\<forall>f \<in> set pre. the (fable_score f) < the (fable_score b))
     \<and> (\<forall>f \<in> set post. the (fable_score f) \<le> the (fable_score b))"
proof -
  let ?k = "\<lambda>f. (the (fable_score f), f)"
  from assms(1) obtain f fs where g: "g = f # fs" by (cases g) auto
  from max_from_first [of "?k f" "map ?k fs"]
  obtain pre post where d: "?k f # map ?k fs = pre @ max_from (?k f) (map ?k fs) # post"
    and lt: "\<forall>y \<in> set pre. fst y < fst (max_from (?k f) (map ?k fs))"
    and le: "\<forall>y \<in> set post. fst y \<le> fst (max_from (?k f) (map ?k fs))"
    by blast
  let ?m = "max_from (?k f) (map ?k fs)"
  have mg: "map ?k g = pre @ ?m # post" using d g by simp
  then have "map snd (map ?k g) = map snd pre @ snd ?m # map snd post" by simp
  then have g': "g = map snd pre @ snd ?m # map snd post" by (simp add: comp_def)
  have "?m \<in> set (map ?k g)" using mg by simp
  then have fm: "fst ?m = the (fable_score (snd ?m))" by auto
  have "set pre \<subseteq> set (map ?k g)" "set post \<subseteq> set (map ?k g)" using mg by auto
  then have pp: "\<forall>y \<in> set pre. fst y = the (fable_score (snd y))"
    "\<forall>y \<in> set post. fst y = the (fable_score (snd y))" by auto
  have "choose_best_version g = Inr (snd ?m)"
    using score_versions_total [OF assms(2)] g by (simp add: choose_best_version_def py_max_def)
  moreover have "\<forall>f \<in> set (map snd pre). the (fable_score f) < the (fable_score (snd ?m))"
    using lt fm pp by auto
  moreover have "\<forall>f \<in> set (map snd post). the (fable_score f) \<le> the (fable_score (snd ?m))"
    using le fm pp by auto
  ultimately show ?thesis using g' by blast
qed

text \<open>
  Claim C3.  On a non-empty group (whose members have a word count and a content, so
  that each gets a score) the scorer returns the first candidate of maximal total score:
  the group splits into the candidates before the selected one, all of strictly smaller
  score, the selected one, and the candidates after it, none of greater score.  A tie
  is not an error.
\<close>

theorem select_first_maximal:
  assumes "g \<noteq> []" and "\<forall>f \<in> set g. word_count f \<noteq> None \<and> content f \<noteq> None"
  shows "\<exists>pre b post s. choose_best_version g = Inr b \<and> g = pre @ b # post
     \<and> fable_score b = Some s
     \<and> (\<forall>f \<in> set pre. \<exists>t. fable_score f = Some t \<and> t < s)
     \<and> (\<forall>f \<in> set post. \<exists>t. fable_score f = Some t \<and> t \<le> s)"
proof -
  have sc: "\<exists>t. fable_score f = Some t" if "f \<in> set g" for f
    using assms(2) that by (auto simp: fable_score_def)
  from choose_best_first_max [OF assms] obtain pre b post
    where c: "choose_best_version g = Inr b" and g: "g = pre @ b # post"
      and lt: "\<forall>f \<in> set pre. the (fable_score f) < the (fable_score b)"
      and le: "\<forall>f \<in> set post. the (fable_score f) \<le> the (fable_score b)"
    by blast
  from sc [of b] g obtain s where s: "fable_score b = Some s" by auto
  have "\<forall>f \<in> set pre. \<exists>t. fable_score f = Some t \<and> t < s"
  proof
    fix f assume f: "f \<in> set pre"
    with g sc [of f] obtain t where "fable_score f = Some t" by auto
    with lt f s show "\<exists>t. fable_score f = Some t \<and> t < s" by auto
  qed
  moreover have "\<forall>f \<in> set post. \<exists>t. fable_score f = Some t \<and> t \<le> s"
  proof
    fix f assume f: "f \<in> set post"
    with g sc [of f] obtain t where "fable_score f = Some t" by auto
    with le f s show "\<exists>t. fable_score f = Some t \<and> t \<le> s" by auto
  qed
  ultimately show ?thesis using c g s by blast
qed

theorem select_first_maximal_witness:
  "(\<exists>pre b post s.
      choose_best_version
        [sample ''Fox'' ''u1'' ''A fox.'' 250, sample ''The Fox'' ''u2'' ''The fox.'' 300]
        = Inr b
      \<and> [sample ''Fox'' ''u1'' ''A fox.'' 250, sample ''The Fox'' ''u2'' ''The fox.'' 300]
        = pre @ b # post
      \<and> fable_score b = Some s
      \<and> (\<forall>f \<in> set pre. \<exists>t. fable_score f = Some t \<and> t < s)
      \<and> (\<forall>f \<in> set post. \<exists>t. fable_score f = Some t \<and> t \<le> s))
   \<and> fable_score (sample ''Fox'' ''u1'' ''A fox.'' 250)
       = fable_score (sample ''The Fox'' ''u2'' ''The fox.'' 300)
   \<and> choose_best_version
        [sample ''Fox'' ''u1'' ''A fox.'' 250, sample ''The Fox'' ''u2'' ''The fox.'' 300]
       = Inr (sample ''Fox'' ''u1'' ''A fox.'' 250)"
proof -
  have m: "no_markers ''A fox.''" "no_markers ''The fox.''"
    by code_simp+
  have t: "total_score 250 ''A fox.'' = 1" "total_score 300 ''The fox.'' = 1"
    using m by (simp_all add: total_no_markers word_score_table)
  have "fable_score (sample ''Fox'' ''u1'' ''A fox.'' 250)
       = fable_score (sample ''The Fox'' ''u2'' ''The fox.'' 300)"
    using t by (simp add: fable_score_def sample_def)
  moreover have "choose_best_version
        [sample ''Fox'' ''u1'' ''A fox.'' 250, sample ''The Fox'' ''u2'' ''The fox.'' 300]
       = Inr (sample ''Fox'' ''u1'' ''A fox.'' 250)"
    using t by (simp add: choose_best_version_def lookup_def py_max_def sample_def)
  ultimately show ?thesis
    using select_first_maximal
      [of "[sample ''Fox'' ''u1'' ''A fox.'' 250, sample ''The Fox'' ''u2'' ''The fox.'' 300]"]
    by (simp add: sample_def)
qed

section \<open>Grouping\<close>

lemma set_first_occurrences: "set (first_occurrences xs) = set xs"
  by (induction xs) auto

lemma distinct_first_occurrences: "distinct (first_occurrences xs)"
  by (induction xs) auto

lemma first_index_Cons: "first_index y (x # xs) = (if x = y then 0 else Suc (first_index y xs))"
  by (simp add: first_index_def)

lemma sorted_first_occurrences:
  "sorted_wrt (\<lambda>a b. first_index a xs < first_index b xs) (first_occurrences xs)"
proof (induction xs)
  case Nil
  show ?case by simp
next
  case (Cons x xs)
  have "sorted_wrt (\<lambda>a b. first_index a xs < first_index b xs)
          (filter (\<lambda>y. y \<noteq> x) (first_occurrences xs))"
    using Cons.IH by (rule sorted_wrt_filter)
  then have "sorted_wrt (\<lambda>a b. first_index a (x # xs) < first_index b (x # xs))
          (filter (\<lambda>y. y \<noteq> x) (first_occurrences xs))"
    by (rule sorted_wrt_mono_rel [rotated]) (auto simp: first_index_Cons)
  then show ?case by (auto simp: first_index_Cons)
qed

lemma keys_add_to_group:
  "map fst (add_to_group k f tg) = (if k \<in> set (map fst tg) then map fst tg else map fst tg @ [k])"
  by (induction tg) force+

lemma group_of_add_to_group:
  "group_of (add_to_group k f tg) k' = (if k' = k then group_of tg k @ [f] else group_of tg k')"
  by (induction tg) (auto simp: group_of_def)

lemma mset_add_to_group:
  "mset (concat (map snd (add_to_group k f tg))) = add_mset f (mset (concat (map snd tg)))"
  by (induction tg) auto

lemma group_fables_total:
  "\<forall>f \<in> set fs. title f \<noteq> None \<Longrightarrow> \<exists>gs. group_fables fs tg = Inr gs"
  by (induction fs arbitrary: tg) (auto simp: lookup_def)

lemma group_fables_keys:
  "group_fables fs tg = Inr gs \<Longrightarrow>
   map fst gs = map fst tg @ filter (\<lambda>k. k \<notin> set (map fst tg)) (first_occurrences (map key_of fs))"
proof (induction fs arbitrary: tg)
  case Nil
  then show ?case by simp
next
  case (Cons f fs)
  from Cons.prems obtain t where t: "title f = Some t"
    and r: "group_fables fs (add_to_group (normalize_title t) f tg) = Inr gs"
    by (auto simp: lookup_def split: option.splits)
  have k: "key_of f = normalize_title t" using t by (simp add: key_of_def)
  have *: "filter (\<lambda>k. k \<notin> set (map fst tg) \<and> k \<noteq> key_of f) xs
         = filter (\<lambda>k. k \<notin> set (map fst tg)) (filter (\<lambda>y. y \<noteq> key_of f) xs)" for xs
    by (induction xs) auto
  show ?case
  proof (cases "key_of f \<in> set (map fst tg)")
    case True
    have "filter (\<lambda>k. k \<notin> set (map fst tg)) (filter (\<lambda>y. y \<noteq> key_of f) xs)
        = filter (\<lambda>k. k \<notin> set (map fst tg)) xs" for xs
      using True by (induction xs) auto
    with Cons.IH [OF r] True k show ?thesis
      by (simp add: keys_add_to_group)
  next
    case False
    have "filter (\<lambda>k. k \<notin> set (map fst tg @ [key_of f])) xs
        = filter (\<lambda>k. k \<notin> set (map fst tg)) (filter (\<lambda>y. y \<noteq> key_of f) xs)" for xs
      by (induction xs) auto
    with Cons.IH [OF r] False k show ?thesis
      by (simp add: keys_add_to_group)
  qed
qed

lemma group_fables_group_of:
  "group_fables fs tg = Inr gs \<Longrightarrow>
   group_of gs k = group_of tg k @ filter (\<lambda>f. key_of f = k) fs"
proof (induction fs arbitrary: tg)
  case Nil
  then show ?case by simp
next
  case (Cons f fs)
  from Cons.prems obtain t where t: "title f = Some t"
    and r: "group_fables fs (add_to_group (normalize_title t) f tg) = Inr gs"
    by (auto simp: lookup_def split: option.splits)
  have k: "key_of f = normalize_title t" using t by (simp add: key_of_def)
  from Cons.IH [OF r] k show ?case
    by (auto simp: group_of_add_to_group)
qed

lemma group_fables_mset:
  "group_fables fs tg = Inr gs \<Longrightarrow>
   mset (concat (map snd gs)) = mset (concat (map snd tg)) + mset fs"
proof (induction fs arbitrary: tg)
  case Nil
  then show ?case by simp
next
  case (Cons f fs)
  from Cons.prems obtain t where t: "title f = Some t"
    and r: "group_fables fs (add_to_group (normalize_title t) f tg) = Inr gs"
    by (auto simp: lookup_def split: option.splits)
  from Cons.IH [OF r] show ?case
    by (simp add: mset_add_to_group)
qed

text \<open>The groups of a whole run.\<close>

lemma groups_keys:
  assumes "group_fables fs [] = Inr gs"
  shows "map fst gs = first_occurrences (map key_of fs)"
  using group_fables_keys [OF assms] by simp

lemma groups_members:
  assumes "group_fables fs [] = Inr gs" and "(k, g) \<in> set gs"
  shows "g = filter (\<lambda>f. key_of f = k) fs" and "g \<noteq> []"
proof -
  have d: "distinct (map fst gs)"
    using groups_keys [OF assms(1)] by (simp add: distinct_first_occurrences)
  with assms(2) have "map_of gs k = Some g" by simp
  then have "group_of gs k = g" by (simp add: group_of_def)
  with group_fables_group_of [OF assms(1), of k] show g: "g = filter (\<lambda>f. key_of f = k) fs"
    by (simp add: group_of_def)
  have "k \<in> set (map fst gs)" using assms(2) by force
  then have "k \<in> set (map key_of fs)"
    using groups_keys [OF assms(1)] by (simp add: set_first_occurrences)
  then show "g \<noteq> []" using g by (auto simp: filter_empty_conv)
qed

text \<open>
  Claim C4.  Grouping by normalized title is a partition that keeps the order.  For
  records that all have a title the grouping loop returns groups with pairwise different
  keys; the group of a key is non-empty and consists of the input records with that key,
  in input order; taken together the groups hold every input record exactly once (as
  multisets), their union is the input set, two groups are disjoint; and the keys come
  in the order of their first occurrence in the input.
\<close>

theorem grouping_is_ordered_partition:
  assumes "\<forall>f \<in> set fables. title f \<noteq> None"
  shows "\<exists>gs. group_fables fables [] = Inr gs
     \<and> distinct (map fst gs)
     \<and> (\<forall>(k, g) \<in> set gs. g \<noteq> [] \<and> g = filter (\<lambda>f. key_of f = k) fables)
     \<and> mset (concat (map snd gs)) = mset fables
     \<and> (\<Union>(k, g) \<in> set gs. set g) = set fables
     \<and> (\<forall>i j. i < j \<and> j < length gs \<longrightarrow> set (snd (gs ! i)) \<inter> set (snd (gs ! j)) = {})
     \<and> map fst gs = first_occurrences (map key_of fables)
     \<and> sorted_wrt (\<lambda>a b. first_index a (map key_of fables) < first_index b (map key_of fables))
          (map fst gs)"
proof -
  from group_fables_total [OF assms] obtain gs where gs: "group_fables fables [] = Inr gs"
    by blast
  have keys: "map fst gs = first_occurrences (map key_of fables)"
    by (rule groups_keys [OF gs])
  have d: "distinct (map fst gs)"
    using keys by (simp add: distinct_first_occurrences)
  have mem: "\<forall>(k, g) \<in> set gs. g \<noteq> [] \<and> g = filter (\<lambda>f. key_of f = k) fables"
    using groups_members [OF gs] by blast
  have ms: "mset (concat (map snd gs)) = mset fables"
    using group_fables_mset [OF gs] by simp
  have "set (concat (map snd gs)) = set fables"
    using ms by (metis set_mset_mset)
  moreover have "(\<Union>(k, g) \<in> set gs. set g) = set (concat (map snd gs))"
    by (auto simp: case_prod_unfold)
  ultimately have un: "(\<Union>(k, g) \<in> set gs. set g) = set fables"
    by simp
  have mem': "snd p = filter (\<lambda>f. key_of f = fst p) fables" if "p \<in> set gs" for p
    using groups_members(1) [OF gs, of "fst p" "snd p"] that by simp
  have key: "key_of f = fst p" if "p \<in> set gs" "f \<in> set (snd p)" for p f
  proof -
    from that(2) have "f \<in> set (filter (\<lambda>f. key_of f = fst p) fables)"
      using mem' [OF that(1)] by simp
    then show ?thesis by simp
  qed
  have dj: "set (snd (gs ! i)) \<inter> set (snd (gs ! j)) = {}" if "i < j" "j < length gs" for i j
  proof -
    have ne: "fst (gs ! i) \<noteq> fst (gs ! j)"
      using d that by (metis (no_types, lifting) distinct_conv_nth length_map less_trans nat_neq_iff nth_map)
    have ij: "gs ! i \<in> set gs" "gs ! j \<in> set gs" using that by simp_all
    have "key_of f = fst (gs ! i)" if "f \<in> set (snd (gs ! i))" for f
      using key [OF ij(1) that] .
    moreover have "key_of f = fst (gs ! j)" if "f \<in> set (snd (gs ! j))" for f
      using key [OF ij(2) that] .
    ultimately show ?thesis using ne by (metis disjoint_iff)
  qed
  have srt: "sorted_wrt (\<lambda>a b. first_index a (map key_of fables) < first_index b (map key_of fables))
          (map fst gs)"
    unfolding keys by (rule sorted_first_occurrences)
  from gs d mem ms un dj keys srt show ?thesis by blast
qed

theorem grouping_is_ordered_partition_witness:
  "\<exists>gs. group_fables sample_corpus [] = Inr gs
     \<and> distinct (map fst gs)
     \<and> (\<forall>(k, g) \<in> set gs. g \<noteq> [] \<and> g = filter (\<lambda>f. key_of f = k) sample_corpus)
     \<and> mset (concat (map snd gs)) = mset sample_corpus
     \<and> (\<Union>(k, g) \<in> set gs. set g) = set sample_corpus
     \<and> (\<forall>i j. i < j \<and> j < length gs \<longrightarrow> set (snd (gs ! i)) \<inter> set (snd (gs ! j)) = {})
     \<and> map fst gs = first_occurrences (map key_of sample_corpus)
     \<and> sorted_wrt
          (\<lambda>a b. first_index a (map key_of sample_corpus) < first_index b (map key_of sample_corpus))
          (map fst gs)"
  by (rule grouping_is_ordered_partition) (simp add: sample_corpus_def sample_def)

section \<open>The selection loop\<close>

lemma choose_best_member:
  assumes "choose_best_version g = Inr b"
  shows "b \<in> set g"
proof -
  from assms obtain sv where sv: "score_versions g = Inr sv"
    by (auto simp: choose_best_version_def split: sum.splits)
  have wf: "\<forall>f \<in> set g. word_count f \<noteq> None \<and> content f \<noteq> None"
    by (rule score_versions_Inr [OF sv])
  have "g \<noteq> []"
    using assms by (auto simp: choose_best_version_def py_max_def)
  from choose_best_first_max [OF this wf] assms show ?thesis by auto
qed

lemma choose_best_fields:
  assumes "choose_best_version g = Inr b"
  shows "\<forall>f \<in> set g. word_count f \<noteq> None \<and> content f \<noteq> None"
proof -
  from assms obtain sv where sv: "score_versions g = Inr sv"
    by (auto simp: choose_best_version_def split: sum.splits)
  show ?thesis by (rule score_versions_Inr [OF sv])
qed

lemma choose_best_total:
  assumes "g \<noteq> []" and "\<forall>f \<in> set g. word_count f \<noteq> None \<and> content f \<noteq> None"
  shows "\<exists>b. choose_best_version g = Inr b"
  using choose_best_first_max [OF assms] by blast

lemma track_removed_total:
  "\<forall>f \<in> set g. url f \<noteq> None \<Longrightarrow> \<exists>rm. track_removed best g = Inr rm"
  by (induction g) (auto simp: lookup_def)

lemma track_removed_Inr:
  "track_removed best g = Inr rm \<Longrightarrow>
   rm = map (\<lambda>f. url_suffix (the (url f))) (filter (\<lambda>f. f \<noteq> best) g)
   \<and> (\<forall>f \<in> set g. f \<noteq> best \<longrightarrow> url f \<noteq> None)"
  by (induction g arbitrary: rm) (auto simp: lookup_def split: if_splits option.splits sum.splits)

lemma print_line_total: "well_formed f \<Longrightarrow> print_line f = Inr ()"
  by (auto simp: print_line_def lookup_def well_formed_def)

lemma print_versions_total: "\<forall>f \<in> set g. well_formed f \<Longrightarrow> print_versions g = Inr ()"
  by (induction g) (simp_all add: print_line_total)

lemma print_line_error: "print_line f = Inl e \<Longrightarrow> \<exists>k. e = KeyError k"
  by (auto simp: print_line_def lookup_def split: option.splits)

lemma print_versions_error: "print_versions g = Inl e \<Longrightarrow> \<exists>k. e = KeyError k"
  by (induction g) (auto dest: print_line_error split: sum.splits)

lemma select_groups_total:
  "\<forall>(k, g) \<in> set gs. g \<noteq> [] \<and> (\<forall>f \<in> set g. well_formed f) \<Longrightarrow>
   \<exists>out removed. select_groups gs = Inr (out, removed)"
proof (induction gs)
  case Nil
  show ?case by simp
next
  case (Cons p gs)
  obtain k g where p: "p = (k, g)" by (cases p)
  from Cons.prems p have g: "g \<noteq> []" "\<forall>f \<in> set g. well_formed f" by auto
  from Cons obtain out removed where r: "select_groups gs = Inr (out, removed)" by auto
  show ?case
  proof (cases "1 < length g")
    case True
    from g obtain b where b: "choose_best_version g = Inr b"
      using choose_best_total [of g] by (auto simp: well_formed_def)
    from g obtain rm where rm: "track_removed b g = Inr rm"
      using track_removed_total [of g b] by (auto simp: well_formed_def)
    have pv: "print_versions g = Inr ()"
      using g(2) by (rule print_versions_total)
    have "b \<in> set g" by (rule choose_best_member [OF b])
    with g(2) have pl: "print_line b = Inr ()" by (simp add: print_line_total)
    from True pv b pl rm r p show ?thesis by simp
  next
    case False
    with g r p show ?thesis by (cases g) auto
  qed
qed

lemma select_groups_out:
  "select_groups gs = Inr (out, removed) \<Longrightarrow> list_all2 (\<lambda>r p. r \<in> set (snd p)) out gs"
proof (induction gs arbitrary: out removed)
  case Nil
  then show ?case by simp
next
  case (Cons p gs)
  obtain k g where p: "p = (k, g)" by (cases p)
  show ?case
  proof (cases "1 < length g")
    case True
    with Cons.prems p obtain b rm out' removed' where b: "choose_best_version g = Inr b"
      and "track_removed b g = Inr rm" and r: "select_groups gs = Inr (out', removed')"
      and o: "out = b # out'"
      by (auto split: sum.splits)
    from choose_best_member [OF b] Cons.IH [OF r] o p show ?thesis by simp
  next
    case False
    with Cons.prems p obtain f fs out' removed' where "g = f # fs"
      and r: "select_groups gs = Inr (out', removed')" and o: "out = f # out'"
      by (auto split: sum.splits list.splits)
    with Cons.IH [OF r] p show ?thesis by simp
  qed
qed

lemma select_groups_removed:
  "select_groups gs = Inr (out, removed) \<Longrightarrow> (r, (k, g)) \<in> set (zip out gs) \<Longrightarrow>
   f \<in> set g \<Longrightarrow> f \<noteq> r \<Longrightarrow> \<exists>u. url f = Some u \<and> url_suffix u \<in> set removed"
proof (induction gs arbitrary: out removed)
  case Nil
  then show ?case by simp
next
  case (Cons p gs)
  obtain k' g' where p: "p = (k', g')" by (cases p)
  show ?case
  proof (cases "1 < length g'")
    case True
    with Cons.prems(1) p obtain b rm out' removed' where b: "choose_best_version g' = Inr b"
      and rm: "track_removed b g' = Inr rm" and r: "select_groups gs = Inr (out', removed')"
      and o: "out = b # out'" "removed = rm @ removed'"
      by (auto split: sum.splits)
    from Cons.prems(2) o p consider "r = b" "g = g'" | "(r, (k, g)) \<in> set (zip out' gs)"
      by auto
    then show ?thesis
    proof cases
      case 1
      from 1 Cons.prems(3,4) have fg: "f \<in> set g'" "f \<noteq> b" by simp_all
      from track_removed_Inr [OF rm]
      have rmeq: "rm = map (\<lambda>f. url_suffix (the (url f))) (filter (\<lambda>f. f \<noteq> b) g')"
        and urls: "\<forall>f \<in> set g'. f \<noteq> b \<longrightarrow> url f \<noteq> None"
        by blast+
      from urls fg obtain u where u: "url f = Some u" by blast
      from fg have "f \<in> set (filter (\<lambda>f. f \<noteq> b) g')" by simp
      then have "url_suffix (the (url f)) \<in> set rm"
        unfolding rmeq set_map by (rule imageI)
      then have "url_suffix u \<in> set rm" using u by simp
      then have "url_suffix u \<in> set removed" using o(2) by simp
      with u show ?thesis by blast
    next
      case 2
      from Cons.IH [OF r 2 Cons.prems(3,4)] o show ?thesis by auto
    qed
  next
    case False
    with Cons.prems(1) p obtain f' fs out' removed' where g': "g' = f' # fs"
      and r: "select_groups gs = Inr (out', removed')" and o: "out = f' # out'" "removed = removed'"
      by (auto split: sum.splits list.splits)
    from False g' have "g' = [f']" by simp
    with Cons.prems(2) o p consider "r = f'" "g = [f']" | "(r, (k, g)) \<in> set (zip out' gs)"
      by auto
    then show ?thesis
    proof cases
      case 1
      with Cons.prems(3,4) show ?thesis by simp
    next
      case 2
      from Cons.IH [OF r 2 Cons.prems(3,4)] o show ?thesis by auto
    qed
  qed
qed

lemma select_groups_removed_only:
  "select_groups gs = Inr (out, removed) \<Longrightarrow> s \<in> set removed \<Longrightarrow>
   \<exists>r k g f u. (r, (k, g)) \<in> set (zip out gs) \<and> f \<in> set g \<and> f \<noteq> r \<and> url f = Some u
      \<and> s = url_suffix u"
proof (induction gs arbitrary: out removed)
  case Nil
  then show ?case by simp
next
  case (Cons p gs)
  obtain k' g' where p: "p = (k', g')" by (cases p)
  have tl: ?case
    if r: "select_groups gs = Inr (out', removed')" and s: "s \<in> set removed'"
      and o: "out = x # out'" for out' removed' x
  proof -
    from Cons.IH [OF r s] obtain r k g f u where z: "(r, (k, g)) \<in> set (zip out' gs)"
      and f: "f \<in> set g" "f \<noteq> r" "url f = Some u" "s = url_suffix u"
      by blast
    from z o have "(r, (k, g)) \<in> set (zip out (p # gs))" by simp
    with f show ?thesis by blast
  qed
  show ?case
  proof (cases "1 < length g'")
    case True
    with Cons.prems(1) p obtain b rm out' removed' where b: "choose_best_version g' = Inr b"
      and rm: "track_removed b g' = Inr rm" and r: "select_groups gs = Inr (out', removed')"
      and o: "out = b # out'" "removed = rm @ removed'"
      by (auto split: sum.splits)
    from Cons.prems(2) o consider "s \<in> set rm" | "s \<in> set removed'" by auto
    then show ?thesis
    proof cases
      case 1
      from track_removed_Inr [OF rm]
      have rmeq: "rm = map (\<lambda>f. url_suffix (the (url f))) (filter (\<lambda>f. f \<noteq> b) g')"
        and urls: "\<forall>f \<in> set g'. f \<noteq> b \<longrightarrow> url f \<noteq> None"
        by blast+
      from 1 obtain f where f: "f \<in> set (filter (\<lambda>f. f \<noteq> b) g')"
        and sf: "s = url_suffix (the (url f))"
        unfolding rmeq set_map by blast
      from f have fg: "f \<in> set g'" "f \<noteq> b" by simp_all
      with urls obtain u where u: "url f = Some u" by blast
      have "(b, (k', g')) \<in> set (zip out (p # gs))" using o p by simp
      moreover have "s = url_suffix u" using sf u by simp
      ultimately show ?thesis using fg u by blast
    next
      case 2
      from tl [OF r 2 o(1)] show ?thesis .
    qed
  next
    case False
    with Cons.prems(1) p obtain f' fs out' removed' where g': "g' = f' # fs"
      and r: "select_groups gs = Inr (out', removed')" and o: "out = f' # out'" "removed = removed'"
      by (auto split: sum.splits list.splits)
    from Cons.prems(2) o have "s \<in> set removed'" by simp
    from tl [OF r this o(1)] show ?thesis .
  qed
qed

section \<open>The deduplication pass\<close>

lemma deduplicate_total:
  assumes "\<forall>f \<in> set fables. well_formed f"
  shows "\<exists>gs out removed. group_fables fables [] = Inr gs \<and> select_groups gs = Inr (out, removed)
     \<and> deduplicate_fables fables = Inr (out, removed)"
proof -
  from assms have "\<forall>f \<in> set fables. title f \<noteq> None" by (simp add: well_formed_def)
  from group_fables_total [OF this] obtain gs where gs: "group_fables fables [] = Inr gs"
    by blast
  have "\<forall>(k, g) \<in> set gs. g \<noteq> [] \<and> (\<forall>f \<in> set g. well_formed f)"
  proof (clarify, rule conjI)
    fix k g assume kg: "(k, g) \<in> set gs"
    show "g \<noteq> []" by (rule groups_members(2) [OF gs kg])
    have "set g \<subseteq> set fables" using groups_members(1) [OF gs kg] by auto
    with assms show "\<forall>f \<in> set g. well_formed f" by blast
  qed
  from select_groups_total [OF this] obtain out removed
    where "select_groups gs = Inr (out, removed)" by blast
  with gs show ?thesis by (simp add: deduplicate_fables_def)
qed

lemma deduplicate_Inr:
  assumes "deduplicate_fables fables = Inr (out, removed)"
  shows "\<exists>gs. group_fables fables [] = Inr gs \<and> select_groups gs = Inr (out, removed)"
  using assms by (auto simp: deduplicate_fables_def split: sum.splits)

lemma selected_in_group:
  assumes gs: "group_fables fables [] = Inr gs" and sel: "select_groups gs = Inr (out, removed)"
    and z: "(r, (k, g)) \<in> set (zip out gs)"
  shows "r \<in> set g" and "key_of r = k" and "r \<in> set fables"
    and "g = filter (\<lambda>f. key_of f = k) fables"
proof -
  from select_groups_out [OF sel] z show r: "r \<in> set g"
    by (auto simp: list_all2_iff)
  from z have kg: "(k, g) \<in> set gs" by (rule set_zip_rightD)
  show g: "g = filter (\<lambda>f. key_of f = k) fables" by (rule groups_members(1) [OF gs kg])
  from r have "r \<in> set (filter (\<lambda>f. key_of f = k) fables)" using g by simp
  then show "key_of r = k" "r \<in> set fables" by simp_all
qed

lemma out_keys:
  assumes gs: "group_fables fables [] = Inr gs" and sel: "select_groups gs = Inr (out, removed)"
  shows "map key_of out = first_occurrences (map key_of fables)"
proof -
  have len: "length out = length gs"
    using select_groups_out [OF sel] by (rule list_all2_lengthD)
  have "map key_of out = map fst gs"
  proof (rule nth_equalityI)
    show "length (map key_of out) = length (map fst gs)" using len by simp
  next
    fix i assume "i < length (map key_of out)"
    then have i: "i < length out" "i < length gs" using len by simp_all
    then have "(out ! i, gs ! i) \<in> set (zip out gs)"
      by (metis in_set_zip fst_conv snd_conv)
    then have "(out ! i, (fst (gs ! i), snd (gs ! i))) \<in> set (zip out gs)" by simp
    from selected_in_group(2) [OF gs sel this] i
    show "map key_of out ! i = map fst gs ! i" by simp
  qed
  with groups_keys [OF gs] show ?thesis by simp
qed

lemma one_of_distinct:
  "distinct xs \<Longrightarrow> x \<in> set xs \<Longrightarrow> length (filter (\<lambda>y. y = x) xs) = 1"
  by (induction xs) (auto simp: filter_empty_conv)

text \<open>
  Claim C1.  For a corpus of records that have all their fields, the deduplication pass
  returns an output with exactly one record for every normalized key of the input: for
  each input record, exactly one output record has its key.  Every output record is an
  input record, hence a member of the group of its own key, and the output keys are the
  input keys in the order of their first occurrence.
\<close>

theorem one_record_per_key:
  assumes "\<forall>f \<in> set fables. well_formed f"
  shows "\<exists>out removed. deduplicate_fables fables = Inr (out, removed)
     \<and> (\<forall>f \<in> set fables. length (filter (\<lambda>r. key_of r = key_of f) out) = 1)
     \<and> (\<forall>r \<in> set out. r \<in> set fables)
     \<and> map key_of out = first_occurrences (map key_of fables)"
proof -
  from deduplicate_total [OF assms] obtain gs out removed
    where gs: "group_fables fables [] = Inr gs" and sel: "select_groups gs = Inr (out, removed)"
      and d: "deduplicate_fables fables = Inr (out, removed)"
    by blast
  have keys: "map key_of out = first_occurrences (map key_of fables)"
    by (rule out_keys [OF gs sel])
  have one: "length (filter (\<lambda>r. key_of r = key_of f) out) = 1" if "f \<in> set fables" for f
  proof -
    have "key_of f \<in> set (map key_of out)"
      using that keys by (simp add: set_first_occurrences)
    moreover have "distinct (map key_of out)"
      using keys by (simp add: distinct_first_occurrences)
    ultimately have "length (filter (\<lambda>y. y = key_of f) (map key_of out)) = 1"
      by (rule one_of_distinct [rotated])
    then show ?thesis by (simp add: filter_map comp_def)
  qed
  have sub: "r \<in> set fables" if "r \<in> set out" for r
  proof -
    have len: "length out = length gs"
      using select_groups_out [OF sel] by (rule list_all2_lengthD)
    from that obtain i where i: "i < length out" "out ! i = r" by (auto simp: in_set_conv_nth)
    with len have "(r, gs ! i) \<in> set (zip out gs)"
      by (metis in_set_zip fst_conv snd_conv)
    then have "(r, (fst (gs ! i), snd (gs ! i))) \<in> set (zip out gs)" by simp
    from selected_in_group(3) [OF gs sel this] show ?thesis .
  qed
  from d one sub keys show ?thesis by blast
qed

theorem one_record_per_key_witness:
  "\<exists>out removed. deduplicate_fables sample_corpus = Inr (out, removed)
     \<and> (\<forall>f \<in> set sample_corpus. length (filter (\<lambda>r. key_of r = key_of f) out) = 1)
     \<and> (\<forall>r \<in> set out. r \<in> set sample_corpus)
     \<and> map key_of out = first_occurrences (map key_of sample_corpus)"
  by (rule one_record_per_key) (simp add: sample_corpus_def sample_def well_formed_def)

section \<open>The key of a removed entry\<close>

lemma contains_iff: "contains sub s \<longleftrightarrow> (\<exists>p q. s = p @ sub @ q)"
proof (induction s)
  case Nil
  show ?case by auto
next
  case (Cons c cs)
  show ?case
  proof
    assume "contains sub (c # cs)"
    then consider "prefix sub (c # cs)" | "contains sub cs" by auto
    then show "\<exists>p q. c # cs = p @ sub @ q"
    proof cases
      case 1
      then obtain q where "c # cs = sub @ q" by (auto simp: prefix_def)
      then have "c # cs = [] @ sub @ q" by simp
      then show ?thesis by blast
    next
      case 2
      with Cons.IH obtain p q where "cs = p @ sub @ q" by blast
      then have "c # cs = (c # p) @ sub @ q" by simp
      then show ?thesis by blast
    qed
  next
    assume "\<exists>p q. c # cs = p @ sub @ q"
    then obtain p q where e: "c # cs = p @ sub @ q" by blast
    show "contains sub (c # cs)"
    proof (cases p)
      case Nil
      with e have "prefix sub (c # cs)" by (simp add: prefix_def)
      then show ?thesis by simp
    next
      case (Cons a p')
      with e have "cs = p' @ sub @ q" by simp
      with Cons.IH have "contains sub cs" by blast
      then show ?thesis by simp
    qed
  qed
qed

lemma py_split_from_nonempty: "py_split_from sep acc s \<noteq> []"
  by (induction sep acc s rule: py_split_from.induct) auto

lemma split_last_suffix:
  "last (py_split_from sep acc s) = acc @ s
   \<or> (\<exists>p. acc @ s = p @ sep @ last (py_split_from sep acc s))"
proof (induction sep acc s rule: py_split_from.induct)
  case (1 sep acc)
  show ?case by simp
next
  case (2 sep acc c cs)
  show ?case
  proof (cases "sep \<noteq> [] \<and> prefix sep (c # cs)")
    case True
    let ?rest = "drop (length sep) (c # cs)"
    let ?x = "last (py_split_from sep [] ?rest)"
    from True have cs: "c # cs = sep @ ?rest"
      by (metis append_take_drop_id prefix_def append_eq_conv_conj)
    have x: "last (py_split_from sep acc (c # cs)) = ?x"
      using True py_split_from_nonempty [of sep "[]" ?rest] by simp
    from "2.IH"(1) [OF True] have "?x = ?rest \<or> (\<exists>p. ?rest = p @ sep @ ?x)" by simp
    then show ?thesis
    proof
      assume "?x = ?rest"
      then have "acc @ c # cs = acc @ sep @ ?x" using cs by simp
      then show ?thesis unfolding x by blast
    next
      assume "\<exists>p. ?rest = p @ sep @ ?x"
      then obtain p where "?rest = p @ sep @ ?x" by blast
      then have "acc @ c # cs = (acc @ sep @ p) @ sep @ ?x" using cs by simp
      then show ?thesis unfolding x by blast
    qed
  next
    case False
    then have x: "last (py_split_from sep acc (c # cs)) = last (py_split_from sep (acc @ [c]) cs)"
      by auto
    from "2.IH"(2) [OF False] show ?thesis unfolding x by simp
  qed
qed

lemma split_last_no_sep:
  assumes "sep \<noteq> []"
    and "\<forall>p q. acc @ s = p @ sep @ q \<longrightarrow> length acc \<le> length p"
  shows "\<not> contains sep (last (py_split_from sep acc s))"
  using assms
proof (induction sep acc s rule: py_split_from.induct)
  case (1 sep acc)
  have "\<not> (\<exists>p q. acc = p @ sep @ q)"
  proof
    assume "\<exists>p q. acc = p @ sep @ q"
    then obtain p q where e: "acc = p @ sep @ q" by blast
    with "1.prems"(2) have "length acc \<le> length p" by simp
    with e "1.prems"(1) show False by simp
  qed
  then show ?case by (simp add: contains_iff)
next
  case (2 sep acc c cs)
  show ?case
  proof (cases "prefix sep (c # cs)")
    case True
    let ?rest = "drop (length sep) (c # cs)"
    have x: "last (py_split_from sep acc (c # cs)) = last (py_split_from sep [] ?rest)"
      using True "2.prems"(1) py_split_from_nonempty [of sep "[]" ?rest] by simp
    from True "2.prems"(1) have "\<not> contains sep (last (py_split_from sep [] ?rest))"
      by (intro "2.IH"(1)) auto
    then show ?thesis unfolding x .
  next
    case False
    then have x: "last (py_split_from sep acc (c # cs)) = last (py_split_from sep (acc @ [c]) cs)"
      by simp
    have "\<forall>p q. (acc @ [c]) @ cs = p @ sep @ q \<longrightarrow> length (acc @ [c]) \<le> length p"
    proof (intro allI impI)
      fix p q assume e: "(acc @ [c]) @ cs = p @ sep @ q"
      then have e': "acc @ c # cs = p @ sep @ q" by simp
      with "2.prems"(2) have le: "length acc \<le> length p" by blast
      have "length p \<noteq> length acc"
      proof
        assume "length p = length acc"
        with e' have "c # cs = sep @ q" by (metis append_eq_append_conv)
        then have "prefix sep (c # cs)" by (simp add: prefix_def)
        with False show False by simp
      qed
      with le show "length (acc @ [c]) \<le> length p" by simp
    qed
    with False "2.prems"(1) have "\<not> contains sep (last (py_split_from sep (acc @ [c]) cs))"
      by (intro "2.IH"(2)) auto
    then show ?thesis unfolding x .
  qed
qed

lemma url_suffix_spec:
  "(\<not> contains ''?srch&'' u \<longrightarrow> url_suffix u = u)
   \<and> (contains ''?srch&'' u \<longrightarrow>
        (\<exists>p. u = p @ ''?srch&'' @ url_suffix u) \<and> \<not> contains ''?srch&'' (url_suffix u))"
proof (cases "contains ''?srch&'' u")
  case False
  then show ?thesis by (simp add: url_suffix_def)
next
  case True
  let ?x = "last (py_split_from ''?srch&'' [] u)"
  have x: "url_suffix u = ?x" using True by (simp add: url_suffix_def py_split_def)
  have no: "\<not> contains ''?srch&'' ?x"
    by (rule split_last_no_sep) simp_all
  from split_last_suffix [of "''?srch&''" "[]" u]
  have "?x = u \<or> (\<exists>p. u = p @ ''?srch&'' @ ?x)" by simp
  with no True have "\<exists>p. u = p @ ''?srch&'' @ ?x" by auto
  with no True x show ?thesis by simp
qed

text \<open>
  What the removed list does hold.  The loop compares records by value
  (\<^verbatim>\<open>fable != best_version\<close>), so for a corpus of records that have all their fields:
  every candidate that differs in some field from the record selected for its key is
  recorded, under its URL with everything up to and including the last \<^verbatim>\<open>?srch&\<close>
  stripped when the URL contains that marker, and under the URL itself otherwise; and the
  removed list holds nothing else.
\<close>

lemma differing_candidates_recorded:
  assumes "\<forall>f \<in> set fables. well_formed f"
  shows "\<exists>out removed. deduplicate_fables fables = Inr (out, removed)
     \<and> (\<forall>f \<in> set fables. \<forall>r \<in> set out. key_of r = key_of f \<and> f \<noteq> r \<longrightarrow>
          (\<exists>u. url f = Some u \<and> url_suffix u \<in> set removed))
     \<and> (\<forall>f \<in> set fables. f \<in> set out \<or> (\<exists>u. url f = Some u \<and> url_suffix u \<in> set removed))
     \<and> (\<forall>s \<in> set removed. \<exists>f \<in> set fables. \<exists>r \<in> set out. key_of r = key_of f \<and> f \<noteq> r
          \<and> (\<exists>u. url f = Some u \<and> s = url_suffix u))
     \<and> (\<forall>u. (\<not> contains ''?srch&'' u \<longrightarrow> url_suffix u = u)
          \<and> (contains ''?srch&'' u \<longrightarrow>
               (\<exists>p. u = p @ ''?srch&'' @ url_suffix u) \<and> \<not> contains ''?srch&'' (url_suffix u)))"
proof -
  from deduplicate_total [OF assms] obtain gs out removed
    where gs: "group_fables fables [] = Inr gs" and sel: "select_groups gs = Inr (out, removed)"
      and d: "deduplicate_fables fables = Inr (out, removed)"
    by blast
  have len: "length out = length gs"
    using select_groups_out [OF sel] by (rule list_all2_lengthD)
  have zip: "\<exists>k g. (r, (k, g)) \<in> set (zip out gs)" if "r \<in> set out" for r
  proof -
    from that obtain i where i: "i < length out" "out ! i = r" by (auto simp: in_set_conv_nth)
    with len have "(r, gs ! i) \<in> set (zip out gs)"
      by (metis in_set_zip fst_conv snd_conv)
    then have "(r, (fst (gs ! i), snd (gs ! i))) \<in> set (zip out gs)" by simp
    then show ?thesis by blast
  qed
  have rec: "\<exists>u. url f = Some u \<and> url_suffix u \<in> set removed"
    if f: "f \<in> set fables" and r: "r \<in> set out" and k: "key_of r = key_of f" and ne: "f \<noteq> r"
    for f r
  proof -
    from zip [OF r] obtain k' g where z: "(r, (k', g)) \<in> set (zip out gs)" by blast
    from selected_in_group(2,4) [OF gs sel z] have "key_of r = k'"
      and g: "g = filter (\<lambda>f. key_of f = k') fables" by simp_all
    with k f have "f \<in> set g" by simp
    from select_groups_removed [OF sel z this ne] show ?thesis .
  qed
  have keys: "map key_of out = first_occurrences (map key_of fables)"
    by (rule out_keys [OF gs sel])
  have cov: "f \<in> set out \<or> (\<exists>u. url f = Some u \<and> url_suffix u \<in> set removed)"
    if f: "f \<in> set fables" for f
  proof -
    have "key_of f \<in> set (map key_of out)"
      using f keys by (simp add: set_first_occurrences)
    then obtain r where r: "r \<in> set out" "key_of r = key_of f" by auto
    show ?thesis
    proof (cases "f = r")
      case True
      with r show ?thesis by simp
    next
      case False
      from rec [OF f r(1) r(2) False] show ?thesis by simp
    qed
  qed
  have only: "\<exists>f \<in> set fables. \<exists>r \<in> set out. key_of r = key_of f \<and> f \<noteq> r
          \<and> (\<exists>u. url f = Some u \<and> s = url_suffix u)" if "s \<in> set removed" for s
  proof -
    from select_groups_removed_only [OF sel that] obtain r k g f u
      where z: "(r, (k, g)) \<in> set (zip out gs)" and f: "f \<in> set g" "f \<noteq> r" "url f = Some u"
        "s = url_suffix u"
      by blast
    from selected_in_group [OF gs sel z] have r: "key_of r = k" "r \<in> set fables"
      and g: "g = filter (\<lambda>f. key_of f = k) fables" by simp_all
    from f(1) have "f \<in> set (filter (\<lambda>f. key_of f = k) fables)" using g by simp
    then have fk: "f \<in> set fables" "key_of f = k" by simp_all
    from z have "r \<in> set out" by (rule set_zip_leftD)
    with fk r f show ?thesis by blast
  qed
  from d rec cov only url_suffix_spec show ?thesis by blast
qed

text \<open>
  Claim C7.  Every candidate of a group of several versions that is not the selected
  record should get an entry in the removed list, so that no candidate leaves the output
  without an audit entry.  The comparison by value misses the candidates that equal the
  selected record in every field: for a corpus in which the same record occurs twice, the
  group has two members, the counter \<^verbatim>\<open>duplicates_found\<close> reports one removed duplicate,
  the output holds one record, and the removed list is empty.
\<close>

theorem equal_duplicate_not_recorded:
  "deduplicate_fables
     [sample ''The Fox'' ''https://aesopfables.com/cgi/aesop1.cgi?srch&fabl/TheFox'' ''A fox.'' 40,
      sample ''The Fox'' ''https://aesopfables.com/cgi/aesop1.cgi?srch&fabl/TheFox'' ''A fox.'' 40]
     = Inr ([sample ''The Fox'' ''https://aesopfables.com/cgi/aesop1.cgi?srch&fabl/TheFox''
               ''A fox.'' 40], [])
   \<and> map_sum id duplicates_found
       (group_fables
          [sample ''The Fox'' ''https://aesopfables.com/cgi/aesop1.cgi?srch&fabl/TheFox'' ''A fox.'' 40,
           sample ''The Fox'' ''https://aesopfables.com/cgi/aesop1.cgi?srch&fabl/TheFox'' ''A fox.'' 40]
          [])
     = Inr 1"
  by code_simp

section \<open>Records with a missing field\<close>

lemma group_fables_no_title:
  "\<exists>f \<in> set fs. title f = None \<Longrightarrow> group_fables fs tg = Inl (KeyError ''title'')"
  by (induction fs arbitrary: tg) (auto simp: lookup_def split: option.splits)

lemma score_versions_error: "score_versions g = Inl e \<Longrightarrow> \<exists>k. e = KeyError k"
  by (induction g arbitrary: e) (auto simp: lookup_def split: option.splits sum.splits)

lemma score_versions_length: "score_versions g = Inr sv \<Longrightarrow> length sv = length g"
  by (induction g arbitrary: sv) (auto simp: lookup_def split: option.splits sum.splits)

lemma choose_best_error:
  assumes "choose_best_version g = Inl e" and "g \<noteq> []"
  shows "\<exists>k. e = KeyError k"
proof (cases "score_versions g")
  case (Inl e')
  with assms(1) have "e = e'" by (simp add: choose_best_version_def)
  with score_versions_error [OF Inl] show ?thesis by simp
next
  case (Inr sv)
  with score_versions_length [OF Inr] assms(2) have "sv \<noteq> []" by auto
  with Inr assms(1) show ?thesis
    by (cases sv) (auto simp: choose_best_version_def py_max_def)
qed

lemma track_removed_error: "track_removed best g = Inl e \<Longrightarrow> \<exists>k. e = KeyError k"
  by (induction g arbitrary: e) (auto simp: lookup_def split: option.splits sum.splits if_splits)

lemma select_groups_error:
  "select_groups gs = Inl e \<Longrightarrow> \<forall>(k, g) \<in> set gs. g \<noteq> [] \<Longrightarrow> \<exists>k. e = KeyError k"
proof (induction gs)
  case Nil
  then show ?case by simp
next
  case (Cons p gs)
  obtain k g where p: "p = (k, g)" by (cases p)
  from Cons.prems(2) p have g: "g \<noteq> []" and rest: "\<forall>(k, g) \<in> set gs. g \<noteq> []" by auto
  show ?case
  proof (cases "1 < length g")
    case True
    show ?thesis
    proof (cases "print_versions g")
      case (Inl e')
      with Cons.prems(1) p True have "e = e'" by simp
      with print_versions_error [OF Inl] show ?thesis by simp
    next
      case pv: (Inr u)
      show ?thesis
      proof (cases "choose_best_version g")
        case (Inl e')
        with Cons.prems(1) p True pv have "e = e'" by simp
        with choose_best_error [OF Inl g] show ?thesis by simp
      next
        case b: (Inr b)
        show ?thesis
        proof (cases "print_line b")
          case (Inl e')
          with Cons.prems(1) p True pv b have "e = e'" by simp
          with print_line_error [OF Inl] show ?thesis by simp
        next
          case pl: (Inr u')
          show ?thesis
          proof (cases "track_removed b g")
            case (Inl e')
            with Cons.prems(1) p True pv b pl have "e = e'" by simp
            with track_removed_error [OF Inl] show ?thesis by simp
          next
            case (Inr rm)
            with Cons.prems(1) p True pv b pl have "select_groups gs = Inl e"
              by (auto split: sum.splits)
            from Cons.IH [OF this rest] show ?thesis .
          qed
        qed
      qed
    qed
  next
    case False
    with g obtain f where "g = [f]" by (cases g) auto
    with Cons.prems(1) p have "select_groups gs = Inl e"
      by (auto split: sum.splits)
    from Cons.IH [OF this rest] show ?thesis .
  qed
qed

lemma select_groups_fields:
  "select_groups gs = Inr (out, removed) \<Longrightarrow> (k, g) \<in> set gs \<Longrightarrow> 1 < length g \<Longrightarrow>
   \<forall>f \<in> set g. word_count f \<noteq> None \<and> content f \<noteq> None"
proof (induction gs arbitrary: out removed)
  case Nil
  then show ?case by simp
next
  case (Cons p gs)
  obtain k' g' where p: "p = (k', g')" by (cases p)
  show ?case
  proof (cases "1 < length g'")
    case True
    with Cons.prems(1) p obtain b rm out' removed' where b: "choose_best_version g' = Inr b"
      and r: "select_groups gs = Inr (out', removed')"
      by (auto split: sum.splits)
    from Cons.prems(2) p consider "g = g'" | "(k, g) \<in> set gs" by auto
    then show ?thesis
    proof cases
      case 1
      with choose_best_fields [OF b] show ?thesis by simp
    next
      case 2
      from Cons.IH [OF r 2 Cons.prems(3)] show ?thesis .
    qed
  next
    case False
    with Cons.prems(1) p obtain out' removed' where r: "select_groups gs = Inr (out', removed')"
      by (auto split: sum.splits list.splits)
    from Cons.prems(2,3) p False have "(k, g) \<in> set gs" by auto
    from Cons.IH [OF r this Cons.prems(3)] show ?thesis .
  qed
qed

text \<open>
  Claim C8.  The claim says that a record missing a required field is skipped and its
  URL logged, and that the batch goes on.  The program has no such handling: the first
  read of the missing key raises \<^verbatim>\<open>KeyError\<close> and nothing catches it.  Here a corpus of
  three records whose second one has no title gives no output at all.
\<close>

theorem missing_title_aborts_batch:
  "deduplicate_fables
     [sample ''The Fox'' ''u1'' ''A fox.'' 40, untitled ''u2'' ''A crow.'' 2,
      sample ''The Hare'' ''u3'' ''A hare.'' 2]
   = Inl (KeyError ''title'')"
  by code_simp

text \<open>
  Claim C8, as amended.  A corpus that contains a record without a title aborts the whole
  batch with \<^verbatim>\<open>KeyError('title')\<close>: there is no output, and nothing is skipped or logged.
  When all records have a title, a record without word count or content aborts the batch
  with a \<^verbatim>\<open>KeyError\<close> as well whenever another record shares its normalized title.
  When such a record is alone under its normalized title and the pass returns, the
  record is in the output, unexamined.
\<close>

theorem malformed_record_aborts:
  "((\<exists>f \<in> set fa. title f = None) \<longrightarrow> deduplicate_fables fa = Inl (KeyError ''title''))
   \<and> ((\<forall>f \<in> set fb. title f \<noteq> None) \<and> b \<in> set fb \<and> (word_count b = None \<or> content b = None)
        \<and> 1 < length (filter (\<lambda>f. key_of f = key_of b) fb)
       \<longrightarrow> (\<exists>k. deduplicate_fables fb = Inl (KeyError k)))
   \<and> (deduplicate_fables fc = Inr (out, removed) \<and> c \<in> set fc
        \<and> length (filter (\<lambda>f. key_of f = key_of c) fc) = 1
       \<longrightarrow> c \<in> set out)"
proof (intro conjI impI)
  assume "\<exists>f \<in> set fa. title f = None"
  from group_fables_no_title [OF this] show "deduplicate_fables fa = Inl (KeyError ''title'')"
    by (simp add: deduplicate_fables_def)
next
  assume a: "(\<forall>f \<in> set fb. title f \<noteq> None) \<and> b \<in> set fb \<and> (word_count b = None \<or> content b = None)
        \<and> 1 < length (filter (\<lambda>f. key_of f = key_of b) fb)"
  then have t: "\<forall>f \<in> set fb. title f \<noteq> None" by simp
  from group_fables_total [OF t] obtain gs where gs: "group_fables fb [] = Inr gs" by blast
  let ?g = "filter (\<lambda>f. key_of f = key_of b) fb"
  have "key_of b \<in> set (map fst gs)"
    using a groups_keys [OF gs] by (simp add: set_first_occurrences)
  then obtain g where kg: "(key_of b, g) \<in> set gs" by auto
  from groups_members(1) [OF gs kg] have g: "g = ?g" .
  have ne: "\<forall>(k, g) \<in> set gs. g \<noteq> []" using groups_members(2) [OF gs] by blast
  show "\<exists>k. deduplicate_fables fb = Inl (KeyError k)"
  proof (cases "select_groups gs")
    case (Inl e)
    from select_groups_error [OF Inl ne] Inl gs show ?thesis
      by (auto simp: deduplicate_fables_def)
  next
    case (Inr r)
    then obtain out' removed' where "select_groups gs = Inr (out', removed')" by (cases r) simp
    from select_groups_fields [OF this kg] a g
    have "\<forall>f \<in> set ?g. word_count f \<noteq> None \<and> content f \<noteq> None" by simp
    moreover have "b \<in> set ?g" using a by simp
    ultimately show ?thesis using a by blast
  qed
next
  assume a: "deduplicate_fables fc = Inr (out, removed) \<and> c \<in> set fc
        \<and> length (filter (\<lambda>f. key_of f = key_of c) fc) = 1"
  from deduplicate_Inr [of fc out removed] a obtain gs where gs: "group_fables fc [] = Inr gs"
    and sel: "select_groups gs = Inr (out, removed)" by blast
  have len: "length out = length gs"
    using select_groups_out [OF sel] by (rule list_all2_lengthD)
  have "key_of c \<in> set (map key_of out)"
    using a out_keys [OF gs sel] by (simp add: set_first_occurrences)
  then obtain r where r: "r \<in> set out" "key_of r = key_of c" by auto
  from r(1) obtain i where i: "i < length out" "out ! i = r" by (auto simp: in_set_conv_nth)
  with len have "(r, gs ! i) \<in> set (zip out gs)"
    by (metis in_set_zip fst_conv snd_conv)
  then have "(r, (fst (gs ! i), snd (gs ! i))) \<in> set (zip out gs)" by simp
  from selected_in_group(3) [OF gs sel this] have "r \<in> set fc" .
  with r have rin: "r \<in> set (filter (\<lambda>f. key_of f = key_of c) fc)" by simp
  from a have cin: "c \<in> set (filter (\<lambda>f. key_of f = key_of c) fc)" by simp
  from a obtain x where "filter (\<lambda>f. key_of f = key_of c) fc = [x]"
    by (auto simp: length_Suc_conv)
  with rin cin have "r = c" by simp
  with r show "c \<in> set out" by simp
qed

theorem malformed_record_aborts_witness:
  "deduplicate_fables [sample ''The Fox'' ''u1'' ''A fox.'' 40, untitled ''u2'' ''A crow.'' 2]
     = Inl (KeyError ''title'')
   \<and> (\<exists>k. deduplicate_fables [sample ''The Fox'' ''u1'' ''A fox.'' 40, contentless ''Fox'' ''u2'' 3]
          = Inl (KeyError k))
   \<and> contentless ''Crow'' ''u2'' 3
       \<in> set [sample ''The Fox'' ''u1'' ''A fox.'' 40, contentless ''Crow'' ''u2'' 3]"
proof -
  have h1: "\<exists>f \<in> set [sample ''The Fox'' ''u1'' ''A fox.'' 40, untitled ''u2'' ''A crow.'' 2].
      title f = None"
    by (simp add: untitled_def)
  have h2: "(\<forall>f \<in> set [sample ''The Fox'' ''u1'' ''A fox.'' 40, contentless ''Fox'' ''u2'' 3].
        title f \<noteq> None)
      \<and> contentless ''Fox'' ''u2'' 3
          \<in> set [sample ''The Fox'' ''u1'' ''A fox.'' 40, contentless ''Fox'' ''u2'' 3]
      \<and> (word_count (contentless ''Fox'' ''u2'' 3) = None
          \<or> content (contentless ''Fox'' ''u2'' 3) = None)
      \<and> 1 < length (filter (\<lambda>f. key_of f = key_of (contentless ''Fox'' ''u2'' 3))
                [sample ''The Fox'' ''u1'' ''A fox.'' 40, contentless ''Fox'' ''u2'' 3])"
    by code_simp
  have h3: "deduplicate_fables [sample ''The Fox'' ''u1'' ''A fox.'' 40, contentless ''Crow'' ''u2'' 3]
        = Inr ([sample ''The Fox'' ''u1'' ''A fox.'' 40, contentless ''Crow'' ''u2'' 3], [])
      \<and> contentless ''Crow'' ''u2'' 3
          \<in> set [sample ''The Fox'' ''u1'' ''A fox.'' 40, contentless ''Crow'' ''u2'' 3]
      \<and> length (filter (\<lambda>f. key_of f = key_of (contentless ''Crow'' ''u2'' 3))
            [sample ''The Fox'' ''u1'' ''A fox.'' 40, contentless ''Crow'' ''u2'' 3]) = 1"
    by code_simp
  from malformed_record_aborts
    [where fa = "[sample ''The Fox'' ''u1'' ''A fox.'' 40, untitled ''u2'' ''A crow.'' 2]"
       and fb = "[sample ''The Fox'' ''u1'' ''A fox.'' 40, contentless ''Fox'' ''u2'' 3]"
       and b = "contentless ''Fox'' ''u2'' 3"
       and fc = "[sample ''The Fox'' ''u1'' ''A fox.'' 40, contentless ''Crow'' ''u2'' 3]"
       and c = "contentless ''Crow'' ''u2'' 3"
       and out = "[sample ''The Fox'' ''u1'' ''A fox.'' 40, contentless ''Crow'' ''u2'' 3]"
       and removed = "[]"]
    h1 h2 h3
  show ?thesis by blast
qed

section \<open>The normalizer on particular titles\<close>

text \<open>
  Claim C5.  The fourth step of the normalizer should leave only letters, digits and
  whitespace.  The class \<^verbatim>\<open>\w\<close> also holds the underscore, so an underscore in a title
  reaches the key: the title \<^verbatim>\<open>Fox_Grapes!\<close> gets the key \<^verbatim>\<open>fox_grapes\<close>, and the
  underscore is neither alphanumeric nor whitespace.
\<close>

theorem normalize_keeps_underscore:
  "normalize_title ''Fox_Grapes!'' = ''fox_grapes''
   \<and> CHR ''_'' \<in> set (normalize_title ''Fox_Grapes!'')
   \<and> \<not> is_alnum CHR ''_'' \<and> \<not> is_space CHR ''_''"
  by code_simp

section \<open>The empty key\<close>

lemma at_most_one_of_distinct:
  "distinct xs \<Longrightarrow> length (filter (\<lambda>y. y = x) xs) \<le> 1"
  by (induction xs) (auto simp: filter_empty_conv)

text \<open>
  Claim C10.  The claim says that a title made of a leading article and a genre word,
  such as \<^verbatim>\<open>The Tale\<close> or \<^verbatim>\<open>A Story\<close>, normalizes to the empty string.  It does not:
  once the article and the whitespace after it are stripped, no whitespace is left in
  front of the genre word, so the second pattern does not match and the genre word is
  the key.
\<close>

theorem article_genre_titles_counterexample:
  "normalize_title ''The Tale'' = ''tale'' \<and> normalize_title ''A Story'' = ''story''"
  by code_simp

text \<open>
  Claim C10, as amended.  The normalizer returns the empty string for some titles: the
  empty title, a title of punctuation only, an article followed by whitespace only, or
  whitespace followed by a genre word; a leading article followed by a genre word
  normalizes to the genre word.  In a corpus of records that have all their fields there
  is at most one group under the empty key, it holds exactly the records whose title
  normalizes to the empty string, and at most one of them is in the output (exactly
  one, when there is such a record).
\<close>

theorem empty_key_group:
  "normalize_title [] = [] \<and> normalize_title ''!!!'' = [] \<and> normalize_title ''The '' = []
   \<and> normalize_title '' Tale'' = []
   \<and> normalize_title ''The Tale'' = ''tale'' \<and> normalize_title ''A Story'' = ''story''
   \<and> ((\<forall>f \<in> set fables. well_formed f) \<longrightarrow>
        (\<exists>gs out removed. group_fables fables [] = Inr gs
           \<and> deduplicate_fables fables = Inr (out, removed)
           \<and> length (filter (\<lambda>p. fst p = []) gs) \<le> 1
           \<and> (\<forall>g. ([], g) \<in> set gs \<longrightarrow> g = filter (\<lambda>f. key_of f = []) fables)
           \<and> length (filter (\<lambda>r. key_of r = []) out) \<le> 1
           \<and> ((\<exists>f \<in> set fables. key_of f = []) \<longrightarrow>
                length (filter (\<lambda>r. key_of r = []) out) = 1)))"
proof -
  have ev: "normalize_title [] = [] \<and> normalize_title ''!!!'' = [] \<and> normalize_title ''The '' = []
   \<and> normalize_title '' Tale'' = []
   \<and> normalize_title ''The Tale'' = ''tale'' \<and> normalize_title ''A Story'' = ''story''"
    by code_simp
  have "\<exists>gs out removed. group_fables fables [] = Inr gs
           \<and> deduplicate_fables fables = Inr (out, removed)
           \<and> length (filter (\<lambda>p. fst p = []) gs) \<le> 1
           \<and> (\<forall>g. ([], g) \<in> set gs \<longrightarrow> g = filter (\<lambda>f. key_of f = []) fables)
           \<and> length (filter (\<lambda>r. key_of r = []) out) \<le> 1
           \<and> ((\<exists>f \<in> set fables. key_of f = []) \<longrightarrow>
                length (filter (\<lambda>r. key_of r = []) out) = 1)"
    if wf: "\<forall>f \<in> set fables. well_formed f"
  proof -
    from deduplicate_total [OF wf] obtain gs out removed
      where gs: "group_fables fables [] = Inr gs" and sel: "select_groups gs = Inr (out, removed)"
        and d: "deduplicate_fables fables = Inr (out, removed)"
      by blast
    have keys: "map fst gs = first_occurrences (map key_of fables)"
      by (rule groups_keys [OF gs])
    have okeys: "map key_of out = first_occurrences (map key_of fables)"
      by (rule out_keys [OF gs sel])
    have "length (filter (\<lambda>y. y = []) (map fst gs)) \<le> 1"
      unfolding keys by (rule at_most_one_of_distinct [OF distinct_first_occurrences])
    then have g1: "length (filter (\<lambda>p. fst p = []) gs) \<le> 1"
      by (simp add: filter_map comp_def)
    have g2: "\<forall>g. ([], g) \<in> set gs \<longrightarrow> g = filter (\<lambda>f. key_of f = []) fables"
      using groups_members(1) [OF gs] by blast
    have "length (filter (\<lambda>y. y = []) (map key_of out)) \<le> 1"
      unfolding okeys by (rule at_most_one_of_distinct [OF distinct_first_occurrences])
    then have o1: "length (filter (\<lambda>r. key_of r = []) out) \<le> 1"
      by (simp add: filter_map comp_def)
    have o2: "length (filter (\<lambda>r. key_of r = []) out) = 1" if "\<exists>f \<in> set fables. key_of f = []"
    proof -
      from that have "[] \<in> set (map key_of out)"
        using okeys by (force simp: set_first_occurrences)
      moreover have "distinct (map key_of out)"
        using okeys by (simp add: distinct_first_occurrences)
      ultimately have "length (filter (\<lambda>y. y = []) (map key_of out)) = 1"
        by (rule one_of_distinct [rotated])
      then show ?thesis by (simp add: filter_map comp_def)
    qed
    from gs d g1 g2 o1 o2 show ?thesis by blast
  qed
  with ev show ?thesis by blast
qed

theorem empty_key_group_witness:
  "\<exists>gs out removed.
      group_fables
        [sample '' Tale'' ''u1'' ''A fox.'' 40, sample ''Fox'' ''u2'' ''A fox.'' 250,
         sample ''!!!'' ''u3'' ''A crow.'' 150] [] = Inr gs
    \<and> deduplicate_fables
        [sample '' Tale'' ''u1'' ''A fox.'' 40, sample ''Fox'' ''u2'' ''A fox.'' 250,
         sample ''!!!'' ''u3'' ''A crow.'' 150] = Inr (out, removed)
    \<and> length (filter (\<lambda>p. fst p = []) gs) \<le> 1
    \<and> length (filter (\<lambda>r. key_of r = []) out) = 1"
proof -
  have wf: "\<forall>f \<in> set [sample '' Tale'' ''u1'' ''A fox.'' 40, sample ''Fox'' ''u2'' ''A fox.'' 250,
         sample ''!!!'' ''u3'' ''A crow.'' 150]. well_formed f"
    by (simp add: sample_def well_formed_def)
  have k: "\<exists>f \<in> set [sample '' Tale'' ''u1'' ''A fox.'' 40, sample ''Fox'' ''u2'' ''A fox.'' 250,
         sample ''!!!'' ''u3'' ''A crow.'' 150]. key_of f = []"
    by code_simp
  from empty_key_group
    [of "[sample '' Tale'' ''u1'' ''A fox.'' 40, sample ''Fox'' ''u2'' ''A fox.'' 250,
         sample ''!!!'' ''u3'' ''A crow.'' 150]"] wf k
  show ?thesis by blast
qed

section \<open>Identifiers and batches of the embedding pass\<close>















section \<open>Titles with the same key\<close>

lemma of_char_lower:
  "(of_char (lower_char c) :: nat) =
     (let n = (of_char c :: nat)
      in if (65 \<le> n \<and> n \<le> 90) \<or> (192 \<le> n \<and> n \<le> 222 \<and> n \<noteq> 215) then n + 32 else n)"
  by (auto simp: lower_char_def Let_def)

lemma is_space_lower [simp]: "is_space (lower_char c) = is_space c"
  unfolding is_space_def of_char_lower by (auto simp: Let_def)

lemma is_alnum_lower [simp]: "is_alnum (lower_char c) = is_alnum c"
  unfolding is_alnum_def of_char_lower by (auto simp: Let_def)

lemma underscore_lower [simp]: "lower_char c = CHR ''_'' \<longleftrightarrow> c = CHR ''_''"
proof -
  have "lower_char c = CHR ''_'' \<longleftrightarrow> (of_char (lower_char c) :: nat) = of_char CHR ''_''"
    by (metis of_char_eq_iff)
  also have "\<dots> \<longleftrightarrow> (of_char c :: nat) = of_char CHR ''_''"
    unfolding of_char_lower by (auto simp: Let_def)
  also have "\<dots> \<longleftrightarrow> c = CHR ''_''"
    by (metis of_char_eq_iff)
  finally show ?thesis .
qed

lemma is_word_lower [simp]: "is_word (lower_char c) = is_word c"
  by (simp add: is_word_def)

lemma lower_append: "lower (s @ t) = lower s @ lower t"
  by (simp add: lower_def)

lemma remove_punct_lower: "remove_punct (lower s) = lower (remove_punct s)"
  by (simp add: remove_punct_def lower_def filter_map comp_def)


lemma lstrip_spaces_append:
  assumes "\<forall>c \<in> set ws. is_space c" and "t = [] \<or> \<not> is_space (hd t)"
  shows "lstrip (ws @ t) = t"
proof -
  have "dropWhile is_space (ws @ t) = dropWhile is_space t"
    using assms(1) by (simp add: dropWhile_append2)
  moreover have "dropWhile is_space t = t"
    using assms(2) by (cases t) auto
  ultimately show ?thesis by (simp add: lstrip_def)
qed

lemma strip_article_unchanged:
  "strip_article s = s \<longleftrightarrow> \<not> (article_at ''the'' s \<or> article_at ''a'' s \<or> article_at ''an'' s)"
proof -
  have short: "lstrip (drop k s) \<noteq> s" if "0 < k" "k \<le> length s" for k
  proof -
    have "length (lstrip (drop k s)) \<le> length (drop k s)"
      unfolding lstrip_def by (rule length_dropWhile_le)
    with that have "length (lstrip (drop k s)) < length s" by simp
    then show ?thesis by auto
  qed
  have len: "length a \<le> length s" if "article_at a s" for a
    using that by (auto simp: article_at_def prefix_def)
  show ?thesis
    using short [of 3] short [of 1] short [of 2] len [of "''the''"] len [of "''a''"] len [of "''an''"]
    by (auto simp: strip_article_def)
qed

lemma article_at_extend:
  "article_at a s \<Longrightarrow> article_at a (s @ t)"
  by (auto simp: article_at_def prefix_def split: list.splits)

lemma strip_article_prefixed:
  assumes a: "a \<in> set article_words" and ws: "ws \<noteq> []" "\<forall>c \<in> set ws. is_space c"
    and t: "t = [] \<or> \<not> is_space (hd t)"
  shows "strip_article (a @ ws @ t) = t"
proof -
  obtain w ws' where w: "ws = w # ws'" using ws(1) by (cases ws) auto
  with ws(2) have sp: "is_space w" by simp
  have nsp: "\<not> is_space CHR ''n''" "\<not> is_space CHR ''h''" by (simp_all add: is_space_def)
  have l: "lstrip (ws @ t) = t" by (rule lstrip_spaces_append [OF ws(2) t])
  from a consider "a = ''the''" | "a = ''a''" | "a = ''an''"
    by (auto simp: article_words_def)
  then show ?thesis
  proof cases
    case 1
    with w sp l show ?thesis by (simp add: strip_article_def article_at_def)
  next
    case 2
    with w sp l show ?thesis by (simp add: strip_article_def article_at_def)
  next
    case 3
    with w sp l nsp show ?thesis by (simp add: strip_article_def article_at_def)
  qed
qed

lemma genre_no_space: "g \<in> set genre_words \<Longrightarrow> \<forall>c \<in> set g. \<not> is_space c"
  by (auto simp: genre_words_def is_space_def)

lemma genre_nl_no_space_but_last:
  "x \<in> set (map (\<lambda>g. g @ [newline]) genre_words) \<Longrightarrow> x \<noteq> [] \<and> last x = newline"
  by auto

lemma newline_char: "newline = CHR 0x0A"
  by code_simp

lemma genre_last_not_newline: "g \<in> set genre_words \<Longrightarrow> g \<noteq> [] \<and> last g \<noteq> newline"
  by (auto simp: genre_words_def newline_char)

lemma strip_genre_appended:
  assumes ws: "ws \<noteq> []" "\<forall>c \<in> set ws. is_space c" and g: "g \<in> set genre_words"
  shows "\<exists>tw. (\<forall>c \<in> set tw. is_space c) \<and> s = strip_genre (s @ ws @ g) @ tw"
proof (induction s)
  case Nil
  obtain w ws' where w: "ws = w # ws'" using ws(1) by (cases ws) auto
  have "lstrip (ws' @ g) = g"
  proof (rule lstrip_spaces_append)
    show "\<forall>c \<in> set ws'. is_space c" using ws(2) w by simp
    show "g = [] \<or> \<not> is_space (hd g)"
      using genre_no_space [OF g] by (cases g) auto
  qed
  with w ws(2) g have "strip_genre (ws @ g) = []" by simp
  then show ?case by simp
next
  case (Cons c s)
  from Cons.IH obtain tw where tw: "\<forall>c \<in> set tw. is_space c" "s = strip_genre (s @ ws @ g) @ tw"
    by blast
  have gne: "g \<noteq> []" "last g \<noteq> newline" using genre_last_not_newline [OF g] by simp_all
  have nonl: "lstrip (s @ ws @ g) \<notin> set (map (\<lambda>g. g @ [newline]) genre_words)"
  proof
    assume m: "lstrip (s @ ws @ g) \<in> set (map (\<lambda>g. g @ [newline]) genre_words)"
    have "dropWhile is_space (s @ ws @ g) = dropWhile is_space ((s @ ws) @ g)" by simp
    have sfx: "suffix g (lstrip (s @ ws @ g))"
    proof -
      have "\<exists>p. lstrip (s @ ws @ g) = p @ g"
      proof (cases "\<forall>c \<in> set (s @ ws). is_space c")
        case True
        then have "dropWhile is_space ((s @ ws) @ g) = dropWhile is_space g"
          by (intro dropWhile_append2) blast
        moreover have "dropWhile is_space g = g"
          using genre_no_space [OF g] gne by (cases g) auto
        ultimately show ?thesis by (simp add: lstrip_def)
      next
        case False
        then obtain x where "x \<in> set (s @ ws)" "\<not> is_space x" by blast
        then have "dropWhile is_space ((s @ ws) @ g) = dropWhile is_space (s @ ws) @ g"
          by (rule dropWhile_append1)
        then show ?thesis by (simp add: lstrip_def)
      qed
      then show ?thesis by (auto simp: suffix_def)
    qed
    then have "last (lstrip (s @ ws @ g)) = last g"
      using gne by (auto simp: suffix_def)
    with genre_nl_no_space_but_last [OF m] gne show False by simp
  qed
  show ?case
  proof (cases "is_space c \<and> lstrip (s @ ws @ g) \<in> set genre_words")
    case True
    have "\<forall>x \<in> set s. is_space x"
    proof (rule ccontr)
      assume "\<not> (\<forall>x \<in> set s. is_space x)"
      then obtain x where x: "x \<in> set s" "\<not> is_space x" by blast
      then have "dropWhile is_space (s @ (ws @ g)) = dropWhile is_space s @ ws @ g"
        by (rule dropWhile_append1)
      then have "set ws \<subseteq> set (lstrip (s @ ws @ g))" by (auto simp: lstrip_def)
      moreover from ws obtain w where "w \<in> set ws" "is_space w" by (cases ws) auto
      ultimately have "\<exists>w \<in> set (lstrip (s @ ws @ g)). is_space w" by blast
      with True genre_no_space [of "lstrip (s @ ws @ g)"] show False by blast
    qed
    with True have "\<forall>x \<in> set (c # s). is_space x" by simp
    moreover from True have "strip_genre ((c # s) @ ws @ g) = []" by simp
    ultimately show ?thesis by (metis append_Nil)
  next
    case False
    with nonl have "strip_genre ((c # s) @ ws @ g) = c # strip_genre (s @ ws @ g)"
      by auto
    with tw show ?thesis by (metis append_Cons)
  qed
qed


lemma remove_punct_append_spaces:
  "\<forall>c \<in> set tw. is_space c \<Longrightarrow> remove_punct (x @ tw) = remove_punct x @ tw"
  by (simp add: remove_punct_def filter_id_conv)

lemma collapse_ws_spaces:
  "\<forall>c \<in> set tw. is_space c \<Longrightarrow> \<forall>c \<in> set (collapse_ws tw). is_space c"
proof (induction tw rule: collapse_ws.induct)
  case 1
  show ?case by simp
next
  case (2 c cs)
  have sp: "is_space CHR '' ''" by (simp add: is_space_def)
  from "2.prems" have "dropWhile is_space cs = []" by simp
  with "2.prems" sp show ?case by (simp del: dropWhile_eq_Nil_conv)
qed

lemma collapse_ws_append_spaces:
  "\<forall>c \<in> set tw. is_space c \<Longrightarrow>
   \<exists>sp. (\<forall>c \<in> set sp. is_space c) \<and> collapse_ws (y @ tw) = collapse_ws y @ sp"
proof (induction y rule: collapse_ws.induct)
  case 1
  from collapse_ws_spaces [OF "1.prems"] show ?case by simp
next
  case (2 c cs)
  show ?case
  proof (cases "is_space c")
    case False
    with "2.IH"(2) "2.prems" obtain sp where "\<forall>c \<in> set sp. is_space c"
      "collapse_ws (cs @ tw) = collapse_ws cs @ sp" by blast
    with False show ?thesis by simp
  next
    case True
    show ?thesis
    proof (cases "\<forall>x \<in> set cs. is_space x")
      case all: True
      then have "dropWhile is_space (cs @ tw) = []" "dropWhile is_space cs = []"
        using "2.prems" by simp_all
      with True have "collapse_ws ((c # cs) @ tw) = collapse_ws (c # cs) @ []"
        by (simp del: dropWhile_eq_Nil_conv)
      then show ?thesis by (metis empty_iff empty_set)
    next
      case False
      then obtain x where "x \<in> set cs" "\<not> is_space x" by blast
      then have d: "dropWhile is_space (cs @ tw) = dropWhile is_space cs @ tw"
        by (rule dropWhile_append1)
      from "2.IH"(1) [OF True "2.prems"] obtain sp where sp: "\<forall>c \<in> set sp. is_space c"
        "collapse_ws (dropWhile is_space cs @ tw) = collapse_ws (dropWhile is_space cs) @ sp"
        by blast
      with True d have "collapse_ws ((c # cs) @ tw) = collapse_ws (c # cs) @ sp" by simp
      with sp(1) show ?thesis by blast
    qed
  qed
qed

lemma strip_append_spaces:
  assumes "\<forall>c \<in> set sp. is_space c"
  shows "strip (z @ sp) = strip z"
proof (cases "\<forall>c \<in> set z. is_space c")
  case True
  with assms have "dropWhile is_space (z @ sp) = []" "dropWhile is_space z = []" by simp_all
  then show ?thesis by (simp add: strip_def del: dropWhile_eq_Nil_conv)
next
  case False
  then obtain x where "x \<in> set z" "\<not> is_space x" by blast
  then have "dropWhile is_space (z @ sp) = dropWhile is_space z @ sp"
    by (rule dropWhile_append1)
  moreover have "dropWhile is_space (rev sp @ r) = dropWhile is_space r" for r
    using assms by (intro dropWhile_append2) simp
  ultimately show ?thesis by (simp add: strip_def)
qed

lemma trailing_spaces_irrelevant:
  assumes "\<forall>c \<in> set tw. is_space c"
  shows "strip (collapse_ws (remove_punct (x @ tw))) = strip (collapse_ws (remove_punct x))"
proof -
  from collapse_ws_append_spaces [OF assms, of "remove_punct x"] obtain sp
    where "\<forall>c \<in> set sp. is_space c"
      "collapse_ws (remove_punct x @ tw) = collapse_ws (remove_punct x) @ sp" by blast
  then show ?thesis
    by (simp add: remove_punct_append_spaces [OF assms] strip_append_spaces)
qed

lemma normalize_article:
  assumes a: "lower a \<in> set article_words" and ws: "ws \<noteq> []" "\<forall>c \<in> set ws. is_space c"
    and t: "t = [] \<or> \<not> is_space (hd t)" and n: "strip_article (lower t) = lower t"
  shows "normalize_title (a @ ws @ t) = normalize_title t"
proof -
  have t': "lower t = [] \<or> \<not> is_space (hd (lower t))"
    using t by (cases t) (simp_all add: lower_def)
  have "strip_article (lower a @ lower ws @ lower t) = lower t"
    by (rule strip_article_prefixed [OF a _ _ t']) (use ws in \<open>simp_all add: lower_def\<close>)
  with n show ?thesis by (simp add: normalize_title_def lower_append)
qed

lemma normalize_genre:
  assumes g: "lower g \<in> set genre_words" and ws: "ws \<noteq> []" "\<forall>c \<in> set ws. is_space c"
    and ng: "strip_genre (lower u) = lower u"
    and na: "strip_article (lower (u @ ws @ g)) = lower (u @ ws @ g)"
  shows "normalize_title (u @ ws @ g) = normalize_title u"
proof -
  have ws': "lower ws \<noteq> []" "\<forall>c \<in> set (lower ws). is_space c"
    using ws by (simp_all add: lower_def)
  from strip_genre_appended [OF ws' g, of "lower u"] obtain tw
    where tw: "\<forall>c \<in> set tw. is_space c"
      "lower u = strip_genre (lower u @ lower ws @ lower g) @ tw" by blast
  have "\<not> (article_at ''the'' (lower u) \<or> article_at ''a'' (lower u) \<or> article_at ''an'' (lower u))"
    using na article_at_extend [of _ "lower u" "lower ws @ lower g"]
    by (auto simp: strip_article_unchanged lower_append)
  then have nu: "strip_article (lower u) = lower u" by (simp add: strip_article_unchanged)
  have "normalize_title (u @ ws @ g)
      = strip (collapse_ws (remove_punct (strip_genre (lower u @ lower ws @ lower g))))"
    using na by (simp add: normalize_title_def lower_append)
  also have "\<dots> = strip (collapse_ws (remove_punct (strip_genre (lower u @ lower ws @ lower g) @ tw)))"
    by (rule trailing_spaces_irrelevant [OF tw(1), symmetric])
  also have "\<dots> = strip (collapse_ws (remove_punct (lower u)))"
    using tw(2) by simp
  also have "\<dots> = normalize_title u"
    using nu ng by (simp add: normalize_title_def)
  finally show ?thesis .
qed

lemma normalize_punctuation:
  assumes "remove_punct p = remove_punct q"
    and "strip_article (lower p) = lower p" and "strip_genre (lower p) = lower p"
    and "strip_article (lower q) = lower q" and "strip_genre (lower q) = lower q"
  shows "normalize_title p = normalize_title q"
  using assms by (simp add: normalize_title_def remove_punct_lower)

text \<open>
  Claim C6.  The claim says that two titles that differ only by punctuation, by a leading
  article or by a trailing genre word get the same key.  The patterns strip one article
  at the very start and one genre word at the very end, before the punctuation is
  removed, so this fails in each of the three ways: \<^verbatim>\<open>The A Fox\<close> and \<^verbatim>\<open>A Fox\<close> differ by
  a leading article, \<^verbatim>\<open>the, fox\<close> and \<^verbatim>\<open>the fox\<close> by a comma, \<^verbatim>\<open>fox tale story\<close> and
  \<^verbatim>\<open>fox tale\<close> by a trailing genre word, and their keys differ.
\<close>

theorem variant_titles_differ:
  "normalize_title ''The A Fox'' = ''a fox'' \<and> normalize_title ''A Fox'' = ''fox''
   \<and> normalize_title ''the, fox'' = ''the fox'' \<and> normalize_title ''the fox'' = ''fox''
   \<and> normalize_title ''fox tale story'' = ''fox tale'' \<and> normalize_title ''fox tale'' = ''fox''"
  by code_simp

text \<open>
  Claim C6, as amended.  The two titles of the example have the same key.  In general:
  \<^item> putting an article (in any letter case) and whitespace in front of a title leaves the
    key unchanged when the title is empty or starts with a character that is not
    whitespace, and the article pattern does not match the title itself;
  \<^item> appending whitespace and a genre word (in any letter case) to a title leaves the key
    unchanged when the genre pattern does not match the title itself and the article
    pattern does not match the extended title;
  \<^item> two titles that are equal once their punctuation (the characters that are neither
    word characters nor whitespace) is deleted have the same key when neither pattern
    matches either of them.

  That a pattern does not match a lowercased title is written as: stripping leaves it
  unchanged.
\<close>

theorem normalize_variants:
  "normalize_title ''The Fox And The Grapes Fable'' = normalize_title ''fox and the grapes''
   \<and> (lower a \<in> set article_words \<and> ws \<noteq> [] \<and> (\<forall>c \<in> set ws. is_space c)
        \<and> (t = [] \<or> \<not> is_space (hd t)) \<and> strip_article (lower t) = lower t
       \<longrightarrow> normalize_title (a @ ws @ t) = normalize_title t)
   \<and> (lower g \<in> set genre_words \<and> ws' \<noteq> [] \<and> (\<forall>c \<in> set ws'. is_space c)
        \<and> strip_genre (lower u) = lower u
        \<and> strip_article (lower (u @ ws' @ g)) = lower (u @ ws' @ g)
       \<longrightarrow> normalize_title (u @ ws' @ g) = normalize_title u)
   \<and> (remove_punct p = remove_punct q
        \<and> strip_article (lower p) = lower p \<and> strip_genre (lower p) = lower p
        \<and> strip_article (lower q) = lower q \<and> strip_genre (lower q) = lower q
       \<longrightarrow> normalize_title p = normalize_title q)"
proof (intro conjI impI)
  show "normalize_title ''The Fox And The Grapes Fable'' = normalize_title ''fox and the grapes''"
    by code_simp
next
  assume "lower a \<in> set article_words \<and> ws \<noteq> [] \<and> (\<forall>c \<in> set ws. is_space c)
        \<and> (t = [] \<or> \<not> is_space (hd t)) \<and> strip_article (lower t) = lower t"
  then show "normalize_title (a @ ws @ t) = normalize_title t"
    by (intro normalize_article) simp_all
next
  assume "lower g \<in> set genre_words \<and> ws' \<noteq> [] \<and> (\<forall>c \<in> set ws'. is_space c)
        \<and> strip_genre (lower u) = lower u
        \<and> strip_article (lower (u @ ws' @ g)) = lower (u @ ws' @ g)"
  then show "normalize_title (u @ ws' @ g) = normalize_title u"
    by (intro normalize_genre) simp_all
next
  assume "remove_punct p = remove_punct q
        \<and> strip_article (lower p) = lower p \<and> strip_genre (lower p) = lower p
        \<and> strip_article (lower q) = lower q \<and> strip_genre (lower q) = lower q"
  then show "normalize_title p = normalize_title q"
    by (intro normalize_punctuation) simp_all
qed

theorem normalize_variants_witness:
  "normalize_title (''The'' @ '' '' @ ''Fox And The Grapes'') = normalize_title ''Fox And The Grapes''
   \<and> normalize_title (''fox and the grapes'' @ '' '' @ ''Fable'')
       = normalize_title ''fox and the grapes''
   \<and> normalize_title ''fox, and the grapes!'' = normalize_title ''fox and the grapes''"
proof -
  have h1: "lower ''The'' \<in> set article_words \<and> '' '' \<noteq> [] \<and> (\<forall>c \<in> set '' ''. is_space c)
        \<and> (''Fox And The Grapes'' = [] \<or> \<not> is_space (hd ''Fox And The Grapes''))
        \<and> strip_article (lower ''Fox And The Grapes'') = lower ''Fox And The Grapes''"
    by code_simp
  have h2: "lower ''Fable'' \<in> set genre_words \<and> '' '' \<noteq> [] \<and> (\<forall>c \<in> set '' ''. is_space c)
        \<and> strip_genre (lower ''fox and the grapes'') = lower ''fox and the grapes''
        \<and> strip_article (lower (''fox and the grapes'' @ '' '' @ ''Fable''))
            = lower (''fox and the grapes'' @ '' '' @ ''Fable'')"
    by code_simp
  have h3: "remove_punct ''fox, and the grapes!'' = remove_punct ''fox and the grapes''
        \<and> strip_article (lower ''fox, and the grapes!'') = lower ''fox, and the grapes!''
        \<and> strip_genre (lower ''fox, and the grapes!'') = lower ''fox, and the grapes!''
        \<and> strip_article (lower ''fox and the grapes'') = lower ''fox and the grapes''
        \<and> strip_genre (lower ''fox and the grapes'') = lower ''fox and the grapes''"
    by code_simp
  from normalize_variants
    [where a = "''The''" and ws = "'' ''" and t = "''Fox And The Grapes''"
       and g = "''Fable''" and ws' = "'' ''" and u = "''fox and the grapes''"
       and p = "''fox, and the grapes!''" and q = "''fox and the grapes''"]
    h1 h2 h3
  show ?thesis by blast
qed

end
